theory Spec2Isabelle
  imports Complex_Main "HOL-Library.Multiset" "HOL-Library.Log_Nat"
begin

section \<open>Configuration (Hero.tsx, lines 23-35)\<close>

definition TUNNEL_WIDTH :: real where
  "TUNNEL_WIDTH = 24"

definition TUNNEL_HEIGHT :: real where
  "TUNNEL_HEIGHT = 16"

definition SEGMENT_DEPTH :: int where
  "SEGMENT_DEPTH = 6"

definition NUM_SEGMENTS :: nat where
  "NUM_SEGMENTS = 14"

definition FLOOR_COLS :: nat where
  "FLOOR_COLS = 6"

definition WALL_ROWS :: nat where
  "WALL_ROWS = 4"

definition COL_WIDTH :: real where
  "COL_WIDTH = TUNNEL_WIDTH / real FLOOR_COLS"

definition ROW_HEIGHT :: real where
  "ROW_HEIGHT = TUNNEL_HEIGHT / real WALL_ROWS"

section \<open>Geometry builder (createSegment, lines 64-99)\<close>

text \<open>
  The builder pushes six numbers per line onto the flat array \<open>vertices\<close>; the array
  becomes the position attribute (item size 3) of a \<open>THREE.LineSegments\<close>, which draws
  one line per consecutive pair of points. The loops are folds over their index ranges.
  The source closes over the configuration constants; the builder below takes the
  tunnel width, height, depth and the two grid divisions as arguments, and
  \<open>segmentVertices\<close> is the builder at the constants of the source.
\<close>

type_synonym vec3 = "real \<times> real \<times> real"

definition floorCeilingLines ::
  "real \<Rightarrow> real \<Rightarrow> real \<Rightarrow> real \<Rightarrow> nat \<Rightarrow> real list \<Rightarrow> real list" where
  "floorCeilingLines w h d colWidth floorCols vertices =
     foldl (\<lambda>vs i.
              let x = - w + real i * colWidth
              in (vs @ [x, - h, 0, x, - h, - d]) @ [x, h, 0, x, h, - d])
       vertices [0..<Suc floorCols]"

definition wallLines ::
  "real \<Rightarrow> real \<Rightarrow> real \<Rightarrow> real \<Rightarrow> nat \<Rightarrow> real list \<Rightarrow> real list" where
  "wallLines w h d rowHeight wallRows vertices =
     foldl (\<lambda>vs i.
              let y = - h + real i * rowHeight
              in (vs @ [- w, y, 0, - w, y, - d]) @ [w, y, 0, w, y, - d])
       vertices [1..<wallRows]"

definition ringLines :: "real \<Rightarrow> real \<Rightarrow> real list \<Rightarrow> real list" where
  "ringLines w h vertices =
     (((vertices @ [- w, - h, 0, w, - h, 0])
        @ [- w, h, 0, w, h, 0])
        @ [- w, - h, 0, - w, h, 0])
        @ [w, - h, 0, w, h, 0]"

definition gridVertices :: "real \<Rightarrow> real \<Rightarrow> real \<Rightarrow> nat \<Rightarrow> nat \<Rightarrow> real list" where
  "gridVertices tunnelWidth tunnelHeight d floorCols wallRows =
     (let w = tunnelWidth / 2;
          h = tunnelHeight / 2;
          colWidth = tunnelWidth / real floorCols;
          rowHeight = tunnelHeight / real wallRows
      in ringLines w h
           (wallLines w h d rowHeight wallRows
              (floorCeilingLines w h d colWidth floorCols [])))"

definition segmentVertices :: "real list" where
  "segmentVertices =
     gridVertices TUNNEL_WIDTH TUNNEL_HEIGHT (real_of_int SEGMENT_DEPTH) FLOOR_COLS WALL_ROWS"

text \<open>How \<open>THREE.LineSegments\<close> reads the position attribute: pairs of points.\<close>

fun toLines :: "real list \<Rightarrow> (vec3 \<times> vec3) list" where
  "toLines (x1 # y1 # z1 # x2 # y2 # z2 # rest) = ((x1, y1, z1), (x2, y2, z2)) # toLines rest"
| "toLines _ = []"

text \<open>
  The grid as the specification words it, one list per family of lines, for half-width
  \<open>w\<close>, half-height \<open>h\<close> and depth \<open>d\<close>.
\<close>

definition specFloorLines :: "real \<Rightarrow> real \<Rightarrow> real \<Rightarrow> nat \<Rightarrow> (vec3 \<times> vec3) list" where
  "specFloorLines w h d floorCols =
     map (\<lambda>i. ((- w + real i * (2 * w / real floorCols), - h, 0),
               (- w + real i * (2 * w / real floorCols), - h, - d))) [0..<floorCols + 1]"

definition specCeilingLines :: "real \<Rightarrow> real \<Rightarrow> real \<Rightarrow> nat \<Rightarrow> (vec3 \<times> vec3) list" where
  "specCeilingLines w h d floorCols =
     map (\<lambda>i. ((- w + real i * (2 * w / real floorCols), h, 0),
               (- w + real i * (2 * w / real floorCols), h, - d))) [0..<floorCols + 1]"

definition wallOffset :: "real \<Rightarrow> nat \<Rightarrow> nat \<Rightarrow> real" where
  "wallOffset h wallRows i = - h + real i * (2 * h / real wallRows)"

definition specLeftLines :: "real \<Rightarrow> real \<Rightarrow> real \<Rightarrow> nat \<Rightarrow> (vec3 \<times> vec3) list" where
  "specLeftLines w h d wallRows =
     map (\<lambda>i. ((- w, wallOffset h wallRows i, 0), (- w, wallOffset h wallRows i, - d)))
       [1..<wallRows]"

definition specRightLines :: "real \<Rightarrow> real \<Rightarrow> real \<Rightarrow> nat \<Rightarrow> (vec3 \<times> vec3) list" where
  "specRightLines w h d wallRows =
     map (\<lambda>i. ((w, wallOffset h wallRows i, 0), (w, wallOffset h wallRows i, - d)))
       [1..<wallRows]"

definition specRingLines :: "real \<Rightarrow> real \<Rightarrow> (vec3 \<times> vec3) list" where
  "specRingLines w h =
     [((- w, - h, 0), (w, - h, 0)),
      ((- w, h, 0), (w, h, 0)),
      ((- w, - h, 0), (- w, h, 0)),
      ((w, - h, 0), (w, h, 0))]"

section \<open>Scene objects and resources\<close>

text \<open>
  A segment is a \<open>THREE.Group\<close> with a depth position and children: one
  \<open>LineSegments\<close> (the wireframe) and the image slabs (\<open>Mesh\<close> objects named
  \<open>slab_image\<close>). Depth positions are integers: every value the code assigns is
  \<open>-i * 6\<close>, a minimum minus 6 or a maximum plus 6. Colours are their hex numbers.
  Euler angles are counted in quarter turns (\<open>-1\<close> is \<open>-Math.PI/2\<close>).
  Every object carries the number under which it was allocated; the geometry, the
  material and the texture of a slab are named after the slab's number.
\<close>

record lineSegments =
  lineId :: nat
  vertices :: "real list"
  lineColor :: nat
  transparent :: bool
  lineOpacity :: real
  needsUpdate :: bool

record mesh =
  meshId :: nat
  meshName :: string
  meshPosition :: vec3
  meshRotation :: "int \<times> int \<times> int"
  planeWidth :: real
  planeHeight :: real
  urlIndex :: nat
  matOpacity :: real
  matMap :: "nat option"

datatype object3d = LineSegmentsObj lineSegments | MeshObj mesh

fun objName :: "object3d \<Rightarrow> string" where
  "objName (LineSegmentsObj l) = []"
| "objName (MeshObj m) = meshName m"

record group =
  posz :: int
  children :: "object3d list"

datatype resource =
  LineGeometry nat | LineMaterial nat | SlabGeometry nat | SlabMaterial nat | SlabTexture nat

record scene =
  background :: "nat option"
  fog :: "nat option"

text \<open>
  The component's refs and the environment it acts on: how many times
  \<open>Math.random\<close> has been drawn, the next allocation number, the resources created and
  not yet disposed (\<open>live\<close>), the registered listeners, the pending animation frame,
  whether \<open>renderer.dispose()\<close> was called, and the slabs whose image arrived after
  they had been released (\<open>lateTextures\<close>).
\<close>

record hero =
  sceneRef :: "scene option"
  cameraRef :: "real option"
  rendererRef :: "unit option"
  segmentsRef :: "group list"
  scrollPosRef :: real
  randomDraws :: nat
  nextId :: nat
  live :: "resource set"
  scrollListener :: bool
  resizeListener :: bool
  frameRequested :: bool
  rendererDisposed :: bool
  lateTextures :: "nat set"

section \<open>Content placement (populateImages, lines 109-177)\<close>

definition imageUrls :: "string list" where
  "imageUrls =
    [''https://images.unsplash.com/photo-1534528741775-53994a69daeb?q=80&w=600&fit=crop'',
     ''https://images.unsplash.com/photo-1531746020798-e6953c6e8e04?q=80&w=600&fit=crop'',
     ''https://images.unsplash.com/photo-1517841905240-472988babdf9?q=80&w=600&fit=crop'',
     ''https://images.unsplash.com/photo-1506794778202-cad84cf45f1d?q=80&w=600&fit=crop'',
     ''https://images.unsplash.com/photo-1544005313-94ddf0286df2?q=80&w=600&fit=crop'',
     ''https://images.unsplash.com/photo-1507003211169-0a1dd7228f2d?q=80&w=600&fit=crop'',
     ''https://images.unsplash.com/photo-1488161628813-99c974c76949?q=80&w=600&fit=crop'',
     ''https://images.unsplash.com/photo-1521119989659-a83eee488058?q=80&w=600&fit=crop'',
     ''https://images.unsplash.com/photo-1550751827-4bd374c3f58b?q=80&w=600&fit=crop'',
     ''https://images.unsplash.com/photo-1500648767791-00dcc994a43e?q=80&w=600&fit=crop'',
     ''https://images.unsplash.com/photo-1664575602276-acd073f104c1?q=80&w=600&fit=crop'',
     ''https://images.unsplash.com/photo-1618005182384-a83a8bd57fbe?q=80&w=600&fit=crop'',
     ''https://images.unsplash.com/photo-1494790108377-be9c29b29330?q=80&w=600&fit=crop'',
     ''https://images.unsplash.com/photo-1539571696357-5a69c17a67c6?q=80&w=600&fit=crop'']"

definition cellMargin :: real where
  "cellMargin = 0.4"

text \<open>
  \<open>Math.random\<close> is a stream \<open>rnd\<close>: the \<open>k\<close>-th draw of the run returns \<open>rnd k\<close>.
  \<open>addImg\<close> draws once for the image, allocates the plane geometry and the material
  (opacity 0, no map) and adds the mesh to the group. The texture arrives later, in the
  loader's callback (\<open>textureLoaded\<close> below).
\<close>

definition addImg ::
  "(nat \<Rightarrow> real) \<Rightarrow> vec3 \<Rightarrow> int \<times> int \<times> int \<Rightarrow> real \<Rightarrow> real \<Rightarrow> group \<times> hero \<Rightarrow> group \<times> hero" where
  "addImg rnd pos rot wd ht gs =
     (case gs of (grp, st) \<Rightarrow>
        let url = nat \<lfloor>rnd (randomDraws st) * real (length imageUrls)\<rfloor>;
            n = nextId st;
            m = \<lparr>meshId = n, meshName = ''slab_image'', meshPosition = pos,
                 meshRotation = rot, planeWidth = wd - cellMargin,
                 planeHeight = ht - cellMargin, urlIndex = url, matOpacity = 0,
                 matMap = None\<rparr>
        in (grp\<lparr>children := children grp @ [MeshObj m]\<rparr>,
            st\<lparr>randomDraws := Suc (randomDraws st), nextId := Suc n,
               live := live st \<union> {SlabGeometry n, SlabMaterial n}\<rparr>))"

text \<open>
  The four loops of \<open>populateImages\<close> have one shape: cell \<open>i\<close> is looked at only when
  \<open>i > last + 1\<close>; then one draw decides (\<open>Math.random() > threshold\<close>) whether
  \<open>addImg\<close> runs and \<open>last\<close> becomes \<open>i\<close>. \<open>faceLoop\<close> is that loop, with the number
  of cells, the threshold and the placement of cell \<open>i\<close> as arguments. Beside the
  source's variables it records the filled indices in order (\<open>filled\<close>), which the
  source keeps only as slab positions.
\<close>

definition faceStep ::
  "(nat \<Rightarrow> real) \<Rightarrow> real \<Rightarrow> (nat \<Rightarrow> vec3) \<Rightarrow> int \<times> int \<times> int \<Rightarrow> real \<Rightarrow> real
     \<Rightarrow> int \<times> nat list \<times> group \<times> hero \<Rightarrow> nat \<Rightarrow> int \<times> nat list \<times> group \<times> hero" where
  "faceStep rnd threshold cellPos rot wd ht acc i =
     (case acc of (lastIdx, filled, grp, st) \<Rightarrow>
        if int i > lastIdx + 1 then
          (if rnd (randomDraws st) > threshold then
             (case addImg rnd (cellPos i) rot wd ht
                     (grp, st\<lparr>randomDraws := Suc (randomDraws st)\<rparr>) of
                (grp', st') \<Rightarrow> (int i, filled @ [i], grp', st'))
           else (lastIdx, filled, grp, st\<lparr>randomDraws := Suc (randomDraws st)\<rparr>))
        else (lastIdx, filled, grp, st))"

definition faceLoop ::
  "(nat \<Rightarrow> real) \<Rightarrow> nat \<Rightarrow> real \<Rightarrow> (nat \<Rightarrow> vec3) \<Rightarrow> int \<times> int \<times> int \<Rightarrow> real \<Rightarrow> real
     \<Rightarrow> group \<times> hero \<Rightarrow> nat list \<times> group \<times> hero" where
  "faceLoop rnd cells threshold cellPos rot wd ht gs =
     snd (foldl (faceStep rnd threshold cellPos rot wd ht)
            (- 999, [], fst gs, snd gs) [0..<cells])"

definition floorLoop ::
  "(nat \<Rightarrow> real) \<Rightarrow> real \<Rightarrow> real \<Rightarrow> real \<Rightarrow> group \<times> hero \<Rightarrow> nat list \<times> group \<times> hero" where
  "floorLoop rnd w h d =
     faceLoop rnd FLOOR_COLS 0.80
       (\<lambda>i. (- w + real i * COL_WIDTH + COL_WIDTH / 2, - h, - d / 2)) (- 1, 0, 0) COL_WIDTH d"

definition ceilingLoop ::
  "(nat \<Rightarrow> real) \<Rightarrow> real \<Rightarrow> real \<Rightarrow> real \<Rightarrow> group \<times> hero \<Rightarrow> nat list \<times> group \<times> hero" where
  "ceilingLoop rnd w h d =
     faceLoop rnd FLOOR_COLS 0.88
       (\<lambda>i. (- w + real i * COL_WIDTH + COL_WIDTH / 2, h, - d / 2)) (1, 0, 0) COL_WIDTH d"

definition leftWallLoop ::
  "(nat \<Rightarrow> real) \<Rightarrow> real \<Rightarrow> real \<Rightarrow> real \<Rightarrow> group \<times> hero \<Rightarrow> nat list \<times> group \<times> hero" where
  "leftWallLoop rnd w h d =
     faceLoop rnd WALL_ROWS 0.80
       (\<lambda>i. (- w, - h + real i * ROW_HEIGHT + ROW_HEIGHT / 2, - d / 2)) (0, 1, 0) d ROW_HEIGHT"

definition rightWallLoop ::
  "(nat \<Rightarrow> real) \<Rightarrow> real \<Rightarrow> real \<Rightarrow> real \<Rightarrow> group \<times> hero \<Rightarrow> nat list \<times> group \<times> hero" where
  "rightWallLoop rnd w h d =
     faceLoop rnd WALL_ROWS 0.80
       (\<lambda>i. (w, - h + real i * ROW_HEIGHT + ROW_HEIGHT / 2, - d / 2)) (0, - 1, 0) d ROW_HEIGHT"

definition populateImages ::
  "(nat \<Rightarrow> real) \<Rightarrow> real \<Rightarrow> real \<Rightarrow> real \<Rightarrow> group \<times> hero \<Rightarrow> group \<times> hero" where
  "populateImages rnd w h d gs =
     snd (rightWallLoop rnd w h d
       (snd (leftWallLoop rnd w h d
         (snd (ceilingLoop rnd w h d
           (snd (floorLoop rnd w h d gs)))))))"

text \<open>The filled cell indices of one invocation, face by face.\<close>

definition floorFilled ::
  "(nat \<Rightarrow> real) \<Rightarrow> real \<Rightarrow> real \<Rightarrow> real \<Rightarrow> group \<times> hero \<Rightarrow> nat list" where
  "floorFilled rnd w h d gs = fst (floorLoop rnd w h d gs)"

definition ceilingFilled ::
  "(nat \<Rightarrow> real) \<Rightarrow> real \<Rightarrow> real \<Rightarrow> real \<Rightarrow> group \<times> hero \<Rightarrow> nat list" where
  "ceilingFilled rnd w h d gs = fst (ceilingLoop rnd w h d (snd (floorLoop rnd w h d gs)))"

definition leftWallFilled ::
  "(nat \<Rightarrow> real) \<Rightarrow> real \<Rightarrow> real \<Rightarrow> real \<Rightarrow> group \<times> hero \<Rightarrow> nat list" where
  "leftWallFilled rnd w h d gs =
     fst (leftWallLoop rnd w h d
       (snd (ceilingLoop rnd w h d (snd (floorLoop rnd w h d gs)))))"

definition rightWallFilled ::
  "(nat \<Rightarrow> real) \<Rightarrow> real \<Rightarrow> real \<Rightarrow> real \<Rightarrow> group \<times> hero \<Rightarrow> nat list" where
  "rightWallFilled rnd w h d gs =
     fst (rightWallLoop rnd w h d
       (snd (leftWallLoop rnd w h d
         (snd (ceilingLoop rnd w h d (snd (floorLoop rnd w h d gs)))))))"

section \<open>Segment creation and the mount effect (lines 56-106, 180-211, 274-285)\<close>

definition createSegment :: "(nat \<Rightarrow> real) \<Rightarrow> int \<Rightarrow> hero \<Rightarrow> group \<times> hero" where
  "createSegment rnd zPos st =
     (let w = TUNNEL_WIDTH / 2;
          h = TUNNEL_HEIGHT / 2;
          d = real_of_int SEGMENT_DEPTH;
          n = nextId st;
          lines = \<lparr>lineId = n, vertices = segmentVertices, lineColor = 0xb0b0b0,
                    transparent = True, lineOpacity = 0.5, needsUpdate = False\<rparr>;
          grp = \<lparr>posz = zPos, children = [LineSegmentsObj lines]\<rparr>
      in populateImages rnd w h d
           (grp, st\<lparr>nextId := Suc n,
                     live := live st \<union> {LineGeometry n, LineMaterial n}\<rparr>))"

definition pushSegment ::
  "(nat \<Rightarrow> real) \<Rightarrow> group list \<times> hero \<Rightarrow> nat \<Rightarrow> group list \<times> hero" where
  "pushSegment rnd acc i =
     (case acc of (segments, s) \<Rightarrow>
        (case createSegment rnd (- int i * SEGMENT_DEPTH) s of
           (segment, s') \<Rightarrow> (segments @ [segment], s')))"

definition generateSegments :: "(nat \<Rightarrow> real) \<Rightarrow> hero \<Rightarrow> hero" where
  "generateSegments rnd st =
     (case foldl (pushSegment rnd) ([], st) [0..<NUM_SEGMENTS] of
        (segments, st') \<Rightarrow> st'\<lparr>segmentsRef := segments\<rparr>)"

text \<open>The state before the mount effect has run: every ref holds its initial value.\<close>

definition unmounted :: hero where
  "unmounted =
     \<lparr>sceneRef = None, cameraRef = None, rendererRef = None, segmentsRef = [],
      scrollPosRef = 0, randomDraws = 0, nextId = 0, live = {},
      scrollListener = False, resizeListener = False, frameRequested = False,
      rendererDisposed = False, lateTextures = {}\<rparr>"

section \<open>Recycling (animate, lines 223-270)\<close>

text \<open>
  The clean-up of a recycled segment (lines 236-245, and the same text at 257-266):
  every object named \<open>slab_image\<close> is collected, then each is removed from the group
  and, being a \<open>Mesh\<close>, has its geometry, its map (if the material has one) and its
  material disposed.
\<close>

definition disposeSlab :: "object3d \<Rightarrow> group \<times> hero \<Rightarrow> group \<times> hero" where
  "disposeSlab c gs =
     (case gs of (segment, st) \<Rightarrow>
        let segment' = segment\<lparr>children := remove1 c (children segment)\<rparr>
        in (case c of
              MeshObj m \<Rightarrow>
                let lv1 = live st - {SlabGeometry (meshId m)};
                    lv2 = (case matMap m of Some t \<Rightarrow> lv1 - {SlabTexture t} | None \<Rightarrow> lv1);
                    lv3 = lv2 - {SlabMaterial (meshId m)}
                in (segment', st\<lparr>live := lv3\<rparr>)
            | LineSegmentsObj l \<Rightarrow> (segment', st)))"

definition releaseSlabs :: "group \<times> hero \<Rightarrow> group \<times> hero" where
  "releaseSlabs gs =
     (let toRemove = filter (\<lambda>c. objName c = ''slab_image'') (children (fst gs))
      in foldl (\<lambda>acc c. disposeSlab c acc) gs toRemove)"

definition repopulate :: "(nat \<Rightarrow> real) \<Rightarrow> group \<times> hero \<Rightarrow> group \<times> hero" where
  "repopulate rnd gs =
     (let gs1 = releaseSlabs gs;
          w = TUNNEL_WIDTH / 2;
          h = TUNNEL_HEIGHT / 2;
          d = real_of_int SEGMENT_DEPTH
      in populateImages rnd w h d gs1)"

text \<open>
  The two scans over all segments start from the constants the source starts from:
  \<open>let minZ = 0\<close> and \<open>let maxZ = -999999\<close>.
\<close>

definition minZ :: "group list \<Rightarrow> int" where
  "minZ segments = foldl (\<lambda>m s. min m (posz s)) 0 segments"

definition maxZ :: "group list \<Rightarrow> int" where
  "maxZ segments = foldl (\<lambda>m s. max m (posz s)) (- 999999) segments"

definition forwardRecycle :: "(nat \<Rightarrow> real) \<Rightarrow> real \<Rightarrow> nat \<Rightarrow> hero \<Rightarrow> hero" where
  "forwardRecycle rnd camZ i st =
     (let segment = segmentsRef st ! i
      in if real_of_int (posz segment) > camZ + real_of_int SEGMENT_DEPTH then
           (case repopulate rnd
                   (segment\<lparr>posz := minZ (segmentsRef st) - SEGMENT_DEPTH\<rparr>, st) of
              (segment', st') \<Rightarrow> st'\<lparr>segmentsRef := (segmentsRef st')[i := segment']\<rparr>)
         else st)"

definition backwardRecycle :: "(nat \<Rightarrow> real) \<Rightarrow> real \<Rightarrow> nat \<Rightarrow> hero \<Rightarrow> hero" where
  "backwardRecycle rnd camZ i st =
     (let tunnelLength = int NUM_SEGMENTS * SEGMENT_DEPTH;
          segment = segmentsRef st ! i
      in if real_of_int (posz segment)
              < camZ - real_of_int tunnelLength - real_of_int SEGMENT_DEPTH then
           (case repopulate rnd
                   (segment\<lparr>posz := maxZ (segmentsRef st) + SEGMENT_DEPTH\<rparr>, st) of
              (segment', st') \<Rightarrow> st'\<lparr>segmentsRef := (segmentsRef st')[i := segment']\<rparr>)
         else st)"

definition recycleSegment :: "(nat \<Rightarrow> real) \<Rightarrow> real \<Rightarrow> hero \<Rightarrow> nat \<Rightarrow> hero" where
  "recycleSegment rnd camZ st i = backwardRecycle rnd camZ i (forwardRecycle rnd camZ i st)"

text \<open>The per-frame recycling update: \<open>segmentsRef.current.forEach\<close> at camera depth \<open>camZ\<close>.\<close>

definition recyclePass :: "(nat \<Rightarrow> real) \<Rightarrow> real \<Rightarrow> hero \<Rightarrow> hero" where
  "recyclePass rnd camZ st =
     foldl (recycleSegment rnd camZ) st [0..<length (segmentsRef st)]"

section \<open>JavaScript numbers\<close>

text \<open>
  A JavaScript number is an IEEE 754 double: a sign, a significand of 53 bits and a
  binary exponent, the smallest spacing between two doubles being \<open>2 ^ -1074\<close>
  (\<open>tiny\<close>). Every arithmetic operation returns the double nearest to the exact
  result, and of two nearest doubles the one whose significand is even. \<open>fl\<close> is that
  rounding on the reals: the exact result is counted in units of \<open>tiny\<close>, the spacing
  of the doubles around it is \<open>2 ^ ulpExp\<close> units (one unit below the normal range),
  and the count is rounded to the nearest multiple of the spacing. A decimal literal of
  the source denotes the double nearest to it. The model has no largest double: where
  JavaScript returns an infinity (a result of magnitude \<open>2 ^ 1024\<close> or more) \<open>fl\<close>
  still rounds, so a statement about the code is made for results within
  \<open>maxDouble\<close>.
\<close>

definition roundEven :: "real \<Rightarrow> int" where
  "roundEven r =
     (let f = \<lfloor>r\<rfloor>; d = r - of_int f
      in if d < 1 / 2 then f else if 1 / 2 < d then f + 1 else if even f then f else f + 1)"

definition ulpExp :: "real \<Rightarrow> nat" where
  "ulpExp r = nat (bitlen \<lfloor>\<bar>r\<bar>\<rfloor> - 53)"

definition tiny :: real where
  "tiny = 1 / 2 ^ 1074"

definition fl :: "real \<Rightarrow> real" where
  "fl x =
     (let r = x / tiny; e = ulpExp r
      in of_int (roundEven (r / 2 ^ e)) * 2 ^ e * tiny)"

definition isDouble :: "real \<Rightarrow> bool" where
  "isDouble x \<longleftrightarrow> fl x = x"



section \<open>Camera driver and the frame (animate, lines 215-273)\<close>

text \<open>
  One tick of the camera: \<open>targetZ = -scrollPos * 0.05\<close>, then
  \<open>position.z += (targetZ - currentZ) * 0.1\<close>, in double arithmetic: the product,
  the difference, the second product and the sum are each rounded. The negation is
  exact.
\<close>

definition targetDepth :: "real \<Rightarrow> real" where
  "targetDepth scrollPos = fl (- scrollPos * fl 0.05)"

definition cameraStep :: "real \<Rightarrow> real \<Rightarrow> real" where
  "cameraStep scrollPos z =
     (let targetZ = targetDepth scrollPos;
          currentZ = z
      in fl (z + fl (fl (targetZ - currentZ) * fl 0.1)))"

text \<open>
  A frame requests the next one, returns early when a ref is missing, moves the camera
  and runs the recycling update at the new camera depth. The draw call changes nothing
  of the state.
\<close>

definition animate :: "(nat \<Rightarrow> real) \<Rightarrow> hero \<Rightarrow> hero" where
  "animate rnd st =
     (let st0 = st\<lparr>frameRequested := True\<rparr>
      in case cameraRef st0 of
           None \<Rightarrow> st0
         | Some z \<Rightarrow>
             (if sceneRef st0 = None \<or> rendererRef st0 = None then st0
              else let z' = cameraStep (scrollPosRef st0) z;
                       camZ = z'
                   in recyclePass rnd camZ (st0\<lparr>cameraRef := Some z'\<rparr>)))"

definition onScroll :: "real \<Rightarrow> hero \<Rightarrow> hero" where
  "onScroll scrollY st = st\<lparr>scrollPosRef := scrollY\<rparr>"

text \<open>
  The mount effect (lines 180-293): scene without background or fog, camera at depth 0,
  renderer, the segments, the first frame, the two listeners. It does nothing when the
  canvas or the container is missing.
\<close>

definition mountEffect :: "(nat \<Rightarrow> real) \<Rightarrow> bool \<Rightarrow> hero \<Rightarrow> hero" where
  "mountEffect rnd domReady st =
     (if \<not> domReady then st
      else let st1 = st\<lparr>sceneRef := Some \<lparr>background = None, fog = None\<rparr>,
                          cameraRef := Some 0, rendererRef := Some ()\<rparr>;
               st2 = generateSegments rnd st1;
               st3 = animate rnd st2
           in st3\<lparr>scrollListener := True, resizeListener := True\<rparr>)"

text \<open>The clean-up the mount effect returns (lines 287-292).\<close>

definition teardown :: "hero \<Rightarrow> hero" where
  "teardown st =
     st\<lparr>scrollListener := False, resizeListener := False, frameRequested := False,
        rendererDisposed := True\<rparr>"

text \<open>
  The loader's callback for slab \<open>n\<close> (lines 117-122) sets the map of that slab's
  material. When the slab is still in a segment its texture becomes a resource of the
  scene. When the slab was released before its image arrived, the callback writes to a
  material that no segment references any more; that texture is never drawn and is
  recorded apart, in \<open>lateTextures\<close>. The opacity animation the callback starts runs
  on a timer and is not part of the model.
\<close>

fun childIds :: "object3d \<Rightarrow> nat list" where
  "childIds (MeshObj m) = [meshId m]"
| "childIds (LineSegmentsObj l) = []"

definition meshIds :: "group \<Rightarrow> nat list" where
  "meshIds g = concat (map childIds (children g))"

definition setMap :: "nat \<Rightarrow> object3d \<Rightarrow> object3d" where
  "setMap n c =
     (case c of
        MeshObj m \<Rightarrow> if meshId m = n then MeshObj (m\<lparr>matMap := Some n\<rparr>) else MeshObj m
      | LineSegmentsObj l \<Rightarrow> LineSegmentsObj l)"

definition textureLoaded :: "nat \<Rightarrow> hero \<Rightarrow> hero" where
  "textureLoaded n st =
     (if n \<in> set (concat (map meshIds (segmentsRef st))) then
        st\<lparr>segmentsRef :=
              map (\<lambda>g. g\<lparr>children := map (setMap n) (children g)\<rparr>) (segmentsRef st),
           live := insert (SlabTexture n) (live st)\<rparr>
      else st\<lparr>lateTextures := insert n (lateTextures st)\<rparr>)"

section \<open>Theme effect (lines 296-325)\<close>

definition themeLine :: "nat \<Rightarrow> real \<Rightarrow> object3d \<Rightarrow> object3d" where
  "themeLine lineHex lineOp child =
     (case child of
        LineSegmentsObj l \<Rightarrow>
          LineSegmentsObj (l\<lparr>lineColor := lineHex, lineOpacity := lineOp, needsUpdate := True\<rparr>)
      | MeshObj m \<Rightarrow> MeshObj m)"

text \<open>The theme colours (lines 300-306).\<close>

definition bgHex :: "bool \<Rightarrow> nat" where
  "bgHex isDarkMode = (if isDarkMode then 0x050505 else 0xffffff)"

definition fogHex :: "bool \<Rightarrow> nat" where
  "fogHex isDarkMode = (if isDarkMode then 0x050505 else 0xffffff)"

definition lineHex :: "bool \<Rightarrow> nat" where
  "lineHex isDarkMode = (if isDarkMode then 0x555555 else 0xb0b0b0)"

definition lineOp :: "bool \<Rightarrow> real" where
  "lineOp isDarkMode = (if isDarkMode then 0.35 else 0.5)"

text \<open>
  The effect returns at once when there is no scene. It gives the scene a new
  background colour, sets the fog colour only when the scene has a fog, and updates
  the material of every \<open>LineSegments\<close> child of every segment.
\<close>

definition themeEffect :: "bool \<Rightarrow> hero \<Rightarrow> hero" where
  "themeEffect isDarkMode st =
     (case sceneRef st of
        None \<Rightarrow> st
      | Some sc \<Rightarrow>
          let sc1 = sc\<lparr>background := Some (bgHex isDarkMode)\<rparr>;
              sc2 = (case fog sc1 of
                       Some c \<Rightarrow> sc1\<lparr>fog := Some (fogHex isDarkMode)\<rparr>
                     | None \<Rightarrow> sc1)
          in st\<lparr>sceneRef := Some sc2,
                segmentsRef :=
                  map (\<lambda>segment. segment\<lparr>children :=
                         map (themeLine (lineHex isDarkMode) (lineOp isDarkMode)) (children segment)\<rparr>)
                    (segmentsRef st)\<rparr>)"

section \<open>Frames and events\<close>

text \<open>One frame as the browser runs it: the scroll listener has stored the offset.\<close>

definition frame :: "(nat \<Rightarrow> real) \<Rightarrow> hero \<Rightarrow> real \<Rightarrow> hero" where
  "frame rnd st scrollY = animate rnd (onScroll scrollY st)"

text \<open>
  What happens to a mounted component: frames (with the scroll offset the listener has
  stored), image loads finishing, and theme changes, in any order.
\<close>

datatype event = Frame real | TextureLoaded nat | ThemeChange bool

fun step :: "(nat \<Rightarrow> real) \<Rightarrow> hero \<Rightarrow> event \<Rightarrow> hero" where
  "step rnd st (Frame scrollY) = frame rnd st scrollY"
| "step rnd st (TextureLoaded n) = textureLoaded n st"
| "step rnd st (ThemeChange flag) = themeEffect flag st"

definition run :: "(nat \<Rightarrow> real) \<Rightarrow> event list \<Rightarrow> hero" where
  "run rnd evs = foldl (step rnd) (mountEffect rnd True unmounted) evs"

section \<open>Inputs of the scenarios\<close>

text \<open>
  The random source of the specification's placement scenario: the first six draws are
  0.1, 0.9, 0.1, 0.9, 0.1, 0.9, and every later draw is 0.
\<close>

definition scenarioSource :: "nat \<Rightarrow> real" where
  "scenarioSource k = (if k < 6 then [0.1, 0.9, 0.1, 0.9, 0.1, 0.9] ! k else 0)"


text \<open>The depth positions the mount gives the 14 segments, in array order.\<close>

definition initialPlacement :: "int list" where
  "initialPlacement = [0, - 6, - 12, - 18, - 24, - 30, - 36, - 42, - 48, - 54, - 60, - 66, - 72, - 78]"

section \<open>Predicates and abstractions the proofs use\<close>

subsection \<open>Rounding\<close>

text \<open>
  The rounding counted in units of \<open>tiny\<close>, and one camera update towards a target
  depth \<open>t\<close>.
\<close>

definition grid :: "real \<Rightarrow> real" where
  "grid r = of_int (roundEven (r / 2 ^ ulpExp r)) * 2 ^ ulpExp r"

definition smooth :: "real \<Rightarrow> real \<Rightarrow> real" where
  "smooth t z = fl (z + fl (fl (t - z) * fl 0.1))"

subsection \<open>Frames of the operations and resources\<close>

text \<open>
  \<open>placed gs gs'\<close>: the pair \<open>gs'\<close> of a group and a state comes from \<open>gs\<close> by
  adding freshly allocated slabs at the end of the group's children, and changes
  nothing else but the draw counter, the allocation counter and the live resources.
\<close>

definition placed :: "group \<times> hero \<Rightarrow> group \<times> hero \<Rightarrow> bool" where
  "placed gs gs' \<longleftrightarrow>
     (\<exists>ms. children (fst gs') = children (fst gs) @ map MeshObj ms
         \<and> map meshId ms = [nextId (snd gs)..<nextId (snd gs')]
         \<and> list_all (\<lambda>m. meshName m = ''slab_image'' \<and> matMap m = None) ms)
     \<and> fst gs' = (fst gs)\<lparr>children := children (fst gs')\<rparr>
     \<and> nextId (snd gs) \<le> nextId (snd gs')
     \<and> live (snd gs') = live (snd gs)
           \<union> (SlabGeometry ` {nextId (snd gs)..<nextId (snd gs')}
              \<union> SlabMaterial ` {nextId (snd gs)..<nextId (snd gs')})
     \<and> snd gs' = (snd gs)\<lparr>randomDraws := randomDraws (snd gs'), nextId := nextId (snd gs'),
                            live := live (snd gs')\<rparr>"

text \<open>
  \<open>sameRefs st st'\<close>: the step from \<open>st\<close> to \<open>st'\<close> touches only the segments, the
  draw counter, the allocation counter and the live resources.
\<close>

definition sameRefs :: "hero \<Rightarrow> hero \<Rightarrow> bool" where
  "sameRefs st st' \<longleftrightarrow>
     st' = st\<lparr>segmentsRef := segmentsRef st', randomDraws := randomDraws st',
              nextId := nextId st', live := live st'\<rparr>"

text \<open>The resources a child of a group holds; for a slab, these are what its release disposes.\<close>

fun childResources :: "object3d \<Rightarrow> resource set" where
  "childResources (LineSegmentsObj l) = {LineGeometry (lineId l), LineMaterial (lineId l)}"
| "childResources (MeshObj m) =
     {SlabGeometry (meshId m), SlabMaterial (meshId m)}
       \<union> (case matMap m of Some t \<Rightarrow> {SlabTexture t} | None \<Rightarrow> {})"

fun slabResources :: "object3d \<Rightarrow> resource set" where
  "slabResources (LineSegmentsObj l) = {}"
| "slabResources (MeshObj m) = childResources (MeshObj m)"

fun isSlab :: "object3d \<Rightarrow> bool" where
  "isSlab (MeshObj m) = True"
| "isSlab (LineSegmentsObj l) = False"

text \<open>
  The resources of a group and of the whole pool, and the invariant of the resource
  accounting: every slab is named \<open>slab_image\<close>, a slab's map is its own texture,
  every group has a child that is not a slab (its wireframe), no two slabs share a number, every number in use is below the allocation counter,
  and the live resources are exactly the resources of the objects in the segments.
\<close>

definition groupResources :: "group \<Rightarrow> resource set" where
  "groupResources g = \<Union> (set (map childResources (children g)))"

definition sceneResources :: "group list \<Rightarrow> resource set" where
  "sceneResources segs = \<Union> (set (map groupResources segs))"

fun wfChild :: "object3d \<Rightarrow> bool" where
  "wfChild (LineSegmentsObj l) = True"
| "wfChild (MeshObj m) =
     (meshName m = ''slab_image'' \<and> (matMap m = None \<or> matMap m = Some (meshId m)))"

definition wfGroup :: "group \<Rightarrow> bool" where
  "wfGroup g \<longleftrightarrow>
     list_all wfChild (children g) \<and> list_ex (\<lambda>c. \<not> isSlab c) (children g)"

definition wfPool :: "group list \<Rightarrow> nat \<Rightarrow> resource set \<Rightarrow> bool" where
  "wfPool segs next lv \<longleftrightarrow>
     list_all wfGroup segs
     \<and> distinct (concat (map meshIds segs))
     \<and> list_all (\<lambda>n. n < next) (concat (map meshIds segs))
     \<and> lv = sceneResources segs"

definition wfState :: "hero \<Rightarrow> bool" where
  "wfState st = wfPool (segmentsRef st) (nextId st) (live st)"

fun slabIdOf :: "resource \<Rightarrow> nat option" where
  "slabIdOf (LineGeometry n) = None"
| "slabIdOf (LineMaterial n) = None"
| "slabIdOf (SlabGeometry n) = Some n"
| "slabIdOf (SlabMaterial n) = Some n"
| "slabIdOf (SlabTexture n) = Some n"

definition newSlabResources :: "nat \<Rightarrow> nat \<Rightarrow> resource set" where
  "newSlabResources a b = SlabGeometry ` {a..<b} \<union> SlabMaterial ` {a..<b}"

subsection \<open>Depth positions\<close>

text \<open>
  The recycling update seen on the depth positions alone. \<open>fwdZ\<close> and \<open>bwdZ\<close> are the
  two branches for the segment at index \<open>i\<close>, with the comparison against an integer
  threshold and with the constant the scan starts from as arguments.
\<close>

definition fwdZ :: "int \<Rightarrow> int \<Rightarrow> nat \<Rightarrow> int list \<Rightarrow> int list" where
  "fwdZ s f i zs = (if f < zs ! i then zs[i := foldl min s zs - 6] else zs)"

definition bwdZ :: "int \<Rightarrow> int \<Rightarrow> nat \<Rightarrow> int list \<Rightarrow> int list" where
  "bwdZ s b i zs = (if zs ! i < b then zs[i := foldl max s zs + 6] else zs)"

definition stepZ :: "int \<Rightarrow> int \<Rightarrow> int \<Rightarrow> int \<Rightarrow> int list \<Rightarrow> nat \<Rightarrow> int list" where
  "stepZ s f s' b zs i = bwdZ s' b i (fwdZ s f i zs)"

text \<open>\<open>run6 lo m\<close>: the \<open>m\<close> consecutive multiples-of-6 steps from \<open>lo\<close> upwards.\<close>

definition run6 :: "int \<Rightarrow> nat \<Rightarrow> int set" where
  "run6 lo m = (\<lambda>t. lo + 6 * int t) ` {..<m}"

text \<open>
  During a pass in which segments are recycled forward: the positions still to be
  recycled (\<open>pend\<close>: at an index not yet visited, above the threshold), and the
  invariant of the pass: the other positions form a run, the position just above the
  run is above the threshold, and everything still to be recycled lies above the run.
\<close>

definition pend :: "int \<Rightarrow> nat \<Rightarrow> int list \<Rightarrow> int set" where
  "pend f k zs = {z. \<exists>j. k \<le> j \<and> j < length zs \<and> zs ! j = z \<and> f < z}"

definition fwdInv :: "int \<Rightarrow> int \<Rightarrow> int \<Rightarrow> nat \<Rightarrow> int list \<Rightarrow> bool" where
  "fwdInv s f b k zs \<longleftrightarrow>
     distinct zs \<and> (\<exists>z\<in>set zs. z \<le> s) \<and> (\<forall>z\<in>set zs. b \<le> z \<and> 6 dvd z)
     \<and> (\<exists>lo m. set zs - pend f k zs = run6 lo m
            \<and> (0 < m \<longrightarrow> f < lo + 6 * int m)
            \<and> (\<forall>p\<in>pend f k zs. \<forall>d\<in>run6 lo m. d < p))"

text \<open>
  The pass at camera depth \<open>camZ\<close> on the positions: a position is beyond the forward
  threshold \<open>camZ + 6\<close> when it is greater than \<open>\<lfloor>camZ\<rfloor> + 6\<close>, and beyond the backward
  threshold \<open>camZ - 84 - 6\<close> when it is less than \<open>\<lceil>camZ\<rceil> - 90\<close>.
\<close>

definition passZ :: "real \<Rightarrow> int list \<Rightarrow> int list" where
  "passZ camZ zs =
     foldl (stepZ 0 (\<lfloor>camZ\<rfloor> + 6) (- 999999) (\<lceil>camZ\<rceil> - 90)) zs [0..<length zs]"

text \<open>
  The pool invariant of the specification: exactly \<open>NUM_SEGMENTS\<close> positions, no two
  equal, which are \<open>NUM_SEGMENTS\<close> consecutive multiples of \<open>SEGMENT_DEPTH\<close>.
\<close>

definition poolContiguous :: "int list \<Rightarrow> bool" where
  "poolContiguous zs \<longleftrightarrow>
     length zs = NUM_SEGMENTS \<and> distinct zs
     \<and> (\<exists>lo. SEGMENT_DEPTH dvd lo
           \<and> set zs = (\<lambda>t. lo + SEGMENT_DEPTH * int t) ` {..<NUM_SEGMENTS})"

text \<open>
  What the proof carries from frame to frame: the invariant, with the lowest position
  at most 0 and the highest at least -999999, the two constants the scans start from.
\<close>

definition poolOk :: "int list \<Rightarrow> bool" where
  "poolOk zs \<longleftrightarrow>
     length zs = 14 \<and> distinct zs
     \<and> (\<exists>lo. 6 dvd lo \<and> set zs = run6 lo 14 \<and> lo \<le> 0 \<and> - 999999 \<le> lo + 78)"



section \<open>The wireframe grid\<close>

lemma foldl_append_chunks:
  "foldl (\<lambda>vs i. (vs @ f i) @ g i) acc xs = acc @ concat (map (\<lambda>i. f i @ g i) xs)"
  by (induction xs arbitrary: acc) simp_all

lemma toLines_chunks:
  "toLines (concat (map (\<lambda>i. [a i, b i, c i, a' i, b' i, c' i] @ [p i, q i, r i, p' i, q' i, r' i]) xs) @ rest)
   = concat (map (\<lambda>i. [((a i, b i, c i), (a' i, b' i, c' i)), ((p i, q i, r i), (p' i, q' i, r' i))]) xs) @ toLines rest"
  by (induction xs) simp_all

lemma mset_interleave:
  "mset (concat (map (\<lambda>i. [f i, g i]) xs)) = mset (map f xs) + mset (map g xs)"
  by (induction xs) simp_all

lemma gridVertices_lines:
  "toLines (gridVertices (2 * w) (2 * h) d floorCols wallRows) =
     concat (map (\<lambda>i. [((- w + real i * (2 * w / real floorCols), - h, 0),
               (- w + real i * (2 * w / real floorCols), - h, - d)), ((- w + real i * (2 * w / real floorCols), h, 0),
               (- w + real i * (2 * w / real floorCols), h, - d))]) [0..<floorCols + 1])
     @ concat (map (\<lambda>i. [((- w, wallOffset h wallRows i, 0), (- w, wallOffset h wallRows i, - d)), ((w, wallOffset h wallRows i, 0), (w, wallOffset h wallRows i, - d))]) [1..<wallRows])
     @ specRingLines w h"
  unfolding gridVertices_def Let_def floorCeilingLines_def wallLines_def ringLines_def foldl_append_chunks
  apply (simp only: append_assoc append_Nil)
  apply (subst toLines_chunks)
  apply (subst toLines_chunks)
  apply (simp add: specRingLines_def wallOffset_def)
  done

lemma wallOffset_between:
  assumes "0 < h" "1 \<le> i" "i < wallRows"
  shows "- h < wallOffset h wallRows i \<and> wallOffset h wallRows i < h"
proof -
  have r: "0 < real wallRows" using assms by simp
  have "0 < real i * (2 * h / real wallRows)" using assms r by simp
  moreover have "real i * (2 * h / real wallRows) < 2 * h"
  proof -
    have "real i * (2 * h / real wallRows) = (real i / real wallRows) * (2 * h)" by simp
    also have "\<dots> < 1 * (2 * h)"
      using assms r by (intro mult_strict_right_mono) simp_all
    finally show ?thesis by simp
  qed
  ultimately show ?thesis unfolding wallOffset_def by linarith
qed

text \<open>
  Claim C9. For half-width \<open>w\<close>, half-height \<open>h\<close>, depth \<open>d\<close>, \<open>floorCols\<close> columns and
  \<open>wallRows\<close> rows the builder produces exactly the lines of the specification:
  \<open>floorCols + 1\<close> longitudinal lines on the floor and as many on the ceiling, at
  \<open>x = -w + i * (2w / floorCols)\<close> for \<open>i\<close> from 0 to \<open>floorCols\<close>, from \<open>z = 0\<close> to
  \<open>z = -d\<close>; \<open>wallRows - 1\<close> longitudinal lines on each side wall, for \<open>i\<close> from 1 to
  \<open>wallRows - 1\<close>, at heights strictly between floor and ceiling; and the four ring
  lines at \<open>z = 0\<close>. The lines are compared as a multiset: the builder interleaves the
  families.
\<close>

theorem grid_lines_as_specified:
  assumes "0 < floorCols" "0 < wallRows" "0 < h"
  shows "mset (toLines (gridVertices (2 * w) (2 * h) d floorCols wallRows))
           = mset (specFloorLines w h d floorCols) + mset (specCeilingLines w h d floorCols)
             + mset (specLeftLines w h d wallRows) + mset (specRightLines w h d wallRows)
             + mset (specRingLines w h)
         \<and> length (specFloorLines w h d floorCols) = floorCols + 1
         \<and> length (specCeilingLines w h d floorCols) = floorCols + 1
         \<and> length (specLeftLines w h d wallRows) = wallRows - 1
         \<and> length (specRightLines w h d wallRows) = wallRows - 1
         \<and> length (specRingLines w h) = 4
         \<and> (\<forall>i\<in>{1..<wallRows}. - h < wallOffset h wallRows i \<and> wallOffset h wallRows i < h)"
proof -
  have "mset (toLines (gridVertices (2 * w) (2 * h) d floorCols wallRows))
           = mset (specFloorLines w h d floorCols) + mset (specCeilingLines w h d floorCols)
             + mset (specLeftLines w h d wallRows) + mset (specRightLines w h d wallRows)
             + mset (specRingLines w h)"
    unfolding gridVertices_lines specFloorLines_def specCeilingLines_def specLeftLines_def specRightLines_def
    by (simp only: mset_append mset_interleave add.assoc)
  moreover have "\<forall>i\<in>{1..<wallRows}. - h < wallOffset h wallRows i \<and> wallOffset h wallRows i < h"
    using wallOffset_between[OF assms(3)] by simp
  ultimately show ?thesis
    by (simp add: specFloorLines_def specCeilingLines_def specLeftLines_def specRightLines_def specRingLines_def)
qed

theorem grid_lines_as_specified_witness:
  "(0::nat) < FLOOR_COLS \<and> (0::nat) < WALL_ROWS \<and> (0::real) < TUNNEL_HEIGHT / 2
   \<and> mset (toLines segmentVertices)
       = mset (specFloorLines 12 8 6 6) + mset (specCeilingLines 12 8 6 6)
         + mset (specLeftLines 12 8 6 4) + mset (specRightLines 12 8 6 4)
         + mset (specRingLines 12 8)
   \<and> length (specFloorLines 12 8 6 6) = 7
   \<and> length (specLeftLines 12 8 6 4) = 3
   \<and> - 8 < wallOffset 8 4 1 \<and> wallOffset 8 4 3 < 8"
  using grid_lines_as_specified[where floorCols=6 and wallRows=4 and h=8 and w=12 and d=6]
  by (simp add: segmentVertices_def TUNNEL_WIDTH_def TUNNEL_HEIGHT_def SEGMENT_DEPTH_def FLOOR_COLS_def WALL_ROWS_def)

section \<open>Rounding to the nearest double\<close>

lemma roundEven_cases: "roundEven r = \<lfloor>r\<rfloor> \<or> roundEven r = \<lfloor>r\<rfloor> + 1"
  unfolding roundEven_def Let_def by simp

lemma roundEven_alt:
  "roundEven r = (if r - of_int \<lfloor>r\<rfloor> < 1 / 2 then \<lfloor>r\<rfloor>
                  else if 1 / 2 < r - of_int \<lfloor>r\<rfloor> then \<lfloor>r\<rfloor> + 1
                  else if even \<lfloor>r\<rfloor> then \<lfloor>r\<rfloor> else \<lfloor>r\<rfloor> + 1)"
  unfolding roundEven_def Let_def ..

lemma roundEven_near: "\<bar>of_int (roundEven r) - r\<bar> \<le> \<bar>of_int k - r\<bar>"
proof -
  define f where "f = \<lfloor>r\<rfloor>"
  have b: "of_int f \<le> r" "r < of_int f + 1" unfolding f_def by linarith+
  have c: "roundEven r = f \<and> r - of_int f \<le> 1 / 2 \<or> roundEven r = f + 1 \<and> 1 / 2 \<le> r - of_int f"
    unfolding roundEven_alt f_def[symmetric] by auto
  consider "k \<le> f" | "f + 1 \<le> k" by linarith
  then show ?thesis
  proof cases
    case 1
    then have "real_of_int k \<le> of_int f" by linarith
    then show ?thesis using b c by auto
  next
    case 2
    then have "of_int f + 1 \<le> real_of_int k" by linarith
    then show ?thesis using b c by auto
  qed
qed

lemma roundEven_int: "roundEven (of_int k) = k"
  unfolding roundEven_def Let_def by simp

lemma roundEven_minus: "roundEven (- r) = - roundEven r"
proof (cases "r = of_int \<lfloor>r\<rfloor>")
  case True
  then obtain k where "r = of_int k" by metis
  then show ?thesis using roundEven_int[of k] roundEven_int[of "- k"] by simp
next
  case False
  define f where "f = \<lfloor>r\<rfloor>"
  have b: "of_int f < r" "r < of_int f + 1" using False unfolding f_def by linarith+
  have "\<lfloor>- r\<rfloor> = - f - 1" using b by linarith
  then have m: "roundEven (- r) = (if - r - of_int (- f - 1) < 1 / 2 then - f - 1
                  else if 1 / 2 < - r - of_int (- f - 1) then - f
                  else if even (- f - 1) then - f - 1 else - f)"
    unfolding roundEven_alt by simp
  have p: "roundEven r = (if r - of_int f < 1 / 2 then f
                  else if 1 / 2 < r - of_int f then f + 1
                  else if even f then f else f + 1)"
    unfolding roundEven_alt f_def ..
  show ?thesis unfolding m p by auto
qed


lemma tiny_pos: "0 < tiny"
  unfolding tiny_def by simp

lemma fl_grid: "fl x = grid (x / tiny) * tiny"
  unfolding fl_def grid_def Let_def by simp

lemma abs_scale: "0 < (p::real) \<Longrightarrow> \<bar>a - b / p\<bar> * p = \<bar>a * p - b\<bar>"
proof -
  assume p: "0 < p"
  have "\<bar>a - b / p\<bar> * p = \<bar>(a - b / p) * p\<bar>" using p by (simp add: abs_mult)
  also have "(a - b / p) * p = a * p - b" using p by (simp add: field_simps)
  finally show ?thesis .
qed

lemma ulpExp_upper: "\<bar>r\<bar> < 2 ^ (ulpExp r + 53)"
proof -
  define N where "N = \<lfloor>\<bar>r\<bar>\<rfloor>"
  have N: "0 \<le> N" "\<bar>r\<bar> < of_int N + 1" unfolding N_def by linarith+
  have "N < 2 ^ (ulpExp r + 53)"
  proof (cases "0 < N")
    case True
    have "nat (bitlen N) \<le> ulpExp r + 53" unfolding ulpExp_def N_def[symmetric] by linarith
    then have "(2::int) ^ nat (bitlen N) \<le> 2 ^ (ulpExp r + 53)"
      by (rule power_increasing) simp
    then show ?thesis using bitlen_bounds[OF True] by linarith
  next
    case False
    then have "N = 0" using N(1) by simp
    then show ?thesis by simp
  qed
  then have "N + 1 \<le> 2 ^ (ulpExp r + 53)" by simp
  then have "real_of_int (N + 1) \<le> real_of_int (2 ^ (ulpExp r + 53))" by (rule of_int_le_iff[THEN iffD2])
  then show ?thesis using N(2) by simp
qed

lemma ulpExp_lower: "0 < ulpExp r \<Longrightarrow> 2 ^ (ulpExp r + 52) \<le> \<bar>r\<bar>"
proof -
  assume p: "0 < ulpExp r"
  define N where "N = \<lfloor>\<bar>r\<bar>\<rfloor>"
  have N: "of_int N \<le> \<bar>r\<bar>" unfolding N_def by linarith
  have b: "bitlen N = int (ulpExp r) + 53" using p unfolding ulpExp_def N_def[symmetric] by linarith
  then have "0 < N" using bitlen_eq_zero_iff[of N] by (cases "0 < N") auto
  from bitlen_bounds[OF this] have "(2::int) ^ nat (bitlen N - 1) \<le> N" by simp
  moreover have "nat (bitlen N - 1) = ulpExp r + 52" using b by simp
  ultimately have "(2::int) ^ (ulpExp r + 52) \<le> N" by simp
  then have "real_of_int (2 ^ (ulpExp r + 52)) \<le> real_of_int N" by (rule of_int_le_iff[THEN iffD2])
  then have "(2::real) ^ (ulpExp r + 52) \<le> real_of_int N" by simp
  then show ?thesis using N by linarith
qed

lemma ulpExp_minus: "ulpExp (- r) = ulpExp r"
  unfolding ulpExp_def by simp

lemma grid_minus: "grid (- r) = - grid r"
  unfolding grid_def ulpExp_minus by (simp add: roundEven_minus)

lemma grid_near_point: "\<bar>grid r - r\<bar> \<le> \<bar>of_int k * 2 ^ ulpExp r - r\<bar>"
proof -
  let ?p = "(2::real) ^ ulpExp r"
  have p: "0 < ?p" by simp
  have "\<bar>of_int (roundEven (r / ?p)) - r / ?p\<bar> \<le> \<bar>of_int k - r / ?p\<bar>"
    by (rule roundEven_near)
  then have "\<bar>of_int (roundEven (r / ?p)) - r / ?p\<bar> * ?p \<le> \<bar>of_int k - r / ?p\<bar> * ?p"
    using p by (simp only: mult_le_cancel_right_pos)
  moreover have "\<bar>of_int (roundEven (r / ?p)) - r / ?p\<bar> * ?p = \<bar>grid r - r\<bar>"
    unfolding grid_def by (rule abs_scale[OF p])
  moreover have "\<bar>of_int k - r / ?p\<bar> * ?p = \<bar>of_int k * ?p - r\<bar>"
    by (rule abs_scale[OF p])
  ultimately show ?thesis by simp
qed

lemma grid_near:
  assumes q: "grid q = q"
  shows "\<bar>grid r - r\<bar> \<le> \<bar>q - r\<bar>"
proof (cases "ulpExp r \<le> ulpExp q")
  case True
  define m where "m = roundEven (q / 2 ^ ulpExp q)"
  have "q = of_int m * 2 ^ ulpExp q" using q unfolding grid_def m_def by simp
  also have "\<dots> = of_int m * (2 ^ (ulpExp q - ulpExp r) * 2 ^ ulpExp r)"
    using True by (simp add: power_add[symmetric])
  also have "\<dots> = of_int (m * 2 ^ (ulpExp q - ulpExp r)) * 2 ^ ulpExp r" by simp
  finally have "q = of_int (m * 2 ^ (ulpExp q - ulpExp r)) * 2 ^ ulpExp r" .
  then show ?thesis using grid_near_point[of r "m * 2 ^ (ulpExp q - ulpExp r)"] by simp
next
  case False
  then have lt: "ulpExp q + 53 \<le> ulpExp r + 52" "0 < ulpExp r" by simp_all
  have "\<bar>q\<bar> < 2 ^ (ulpExp q + 53)" by (rule ulpExp_upper)
  also have "(2::real) ^ (ulpExp q + 53) \<le> 2 ^ (ulpExp r + 52)"
    using lt(1) by (rule power_increasing) simp
  finally have qB: "\<bar>q\<bar> < 2 ^ (ulpExp r + 52)" .
  have rB: "2 ^ (ulpExp r + 52) \<le> \<bar>r\<bar>" using ulpExp_lower[OF lt(2)] .
  have B: "(2::real) ^ (ulpExp r + 52) = of_int (2 ^ 52) * 2 ^ ulpExp r"
    by (simp add: power_add)
  show ?thesis
  proof (cases "0 \<le> r")
    case True
    have "\<bar>grid r - r\<bar> \<le> \<bar>of_int (2 ^ 52) * 2 ^ ulpExp r - r\<bar>" by (rule grid_near_point)
    then show ?thesis unfolding B[symmetric] using qB rB True by linarith
  next
    case False
    have "\<bar>grid r - r\<bar> \<le> \<bar>of_int (- (2 ^ 52)) * 2 ^ ulpExp r - r\<bar>" by (rule grid_near_point)
    moreover have "of_int (- (2 ^ 52)) * 2 ^ ulpExp r = - ((2::real) ^ (ulpExp r + 52))"
      by (simp add: power_add)
    ultimately show ?thesis using qB rB False by linarith
  qed
qed

lemma fl_nearest:
  assumes "isDouble d"
  shows "\<bar>fl x - x\<bar> \<le> \<bar>d - x\<bar>"
proof -
  have S: "0 < tiny" by (rule tiny_pos)
  have "grid (d / tiny) * tiny = d" using assms unfolding isDouble_def fl_grid .
  then have "grid (d / tiny) = d / tiny" using S by (simp add: field_simps)
  from grid_near[OF this, of "x / tiny"]
  have "\<bar>grid (x / tiny) - x / tiny\<bar> \<le> \<bar>d / tiny - x / tiny\<bar>" .
  then have "\<bar>grid (x / tiny) - x / tiny\<bar> * tiny \<le> \<bar>d / tiny - x / tiny\<bar> * tiny"
    using S by (simp only: mult_le_cancel_right_pos)
  moreover have "\<bar>grid (x / tiny) - x / tiny\<bar> * tiny = \<bar>fl x - x\<bar>"
    unfolding fl_grid by (rule abs_scale[OF S])
  moreover have "\<bar>d / tiny - x / tiny\<bar> * tiny = \<bar>d - x\<bar>"
    using abs_scale[OF S, of "d / tiny" x] S by simp
  ultimately show ?thesis by simp
qed

lemma fl_minus: "fl (- x) = - fl x"
  unfolding fl_grid by (simp add: grid_minus)


lemma grid_zero: "grid 0 = 0"
  unfolding grid_def by (simp add: roundEven_int[of 0, simplified])

lemma bitlen_le_53: "\<bar>k\<bar> < 2 ^ 53 \<Longrightarrow> bitlen \<bar>k\<bar> \<le> 53"
proof -
  assume k: "\<bar>k\<bar> < 2 ^ 53"
  show ?thesis
  proof (cases "0 < \<bar>k\<bar>")
    case True
    from bitlen_bounds[OF True] have "(2::int) ^ nat (bitlen \<bar>k\<bar> - 1) < 2 ^ 53" using k by linarith
    then have "nat (bitlen \<bar>k\<bar> - 1) < 53" by (rule power_less_imp_less_exp[rotated]) simp
    then show ?thesis by linarith
  next
    case False
    then have "\<bar>k\<bar> = 0" by simp
    then show ?thesis by simp
  qed
qed

lemma grid_representable_strict:
  assumes "\<bar>k\<bar> < 2 ^ 53"
  shows "grid (of_int k * 2 ^ j) = of_int k * 2 ^ j"
proof (cases "k = 0")
  case True
  then show ?thesis by (simp add: grid_zero)
next
  case False
  then have pos: "0 < \<bar>k\<bar>" by simp
  let ?r = "real_of_int k * 2 ^ j"
  have "\<bar>?r\<bar> = of_int (\<bar>k\<bar> * 2 ^ j)" by (simp add: abs_mult)
  then have "\<lfloor>\<bar>?r\<bar>\<rfloor> = \<bar>k\<bar> * 2 ^ j" by (simp only: floor_of_int)
  then have "bitlen \<lfloor>\<bar>?r\<bar>\<rfloor> = bitlen \<bar>k\<bar> + int j" using bitlen_pow2[OF pos, of j] by simp
  then have e: "ulpExp ?r \<le> j" unfolding ulpExp_def using bitlen_le_53[OF assms] by linarith
  have "?r / 2 ^ ulpExp ?r = of_int k * (2 ^ j / 2 ^ ulpExp ?r)" by simp
  also have "(2::real) ^ j / 2 ^ ulpExp ?r = 2 ^ (j - ulpExp ?r)"
    using e by (simp add: power_diff)
  also have "of_int k * (2::real) ^ (j - ulpExp ?r) = of_int (k * 2 ^ (j - ulpExp ?r))" by simp
  finally have "roundEven (?r / 2 ^ ulpExp ?r) = k * 2 ^ (j - ulpExp ?r)"
    by (simp only: roundEven_int)
  then have "grid ?r = of_int (k * 2 ^ (j - ulpExp ?r)) * 2 ^ ulpExp ?r"
    unfolding grid_def by simp
  also have "\<dots> = of_int k * (2 ^ (j - ulpExp ?r) * 2 ^ ulpExp ?r)" by simp
  also have "(2::real) ^ (j - ulpExp ?r) * 2 ^ ulpExp ?r = 2 ^ j"
    using e by (simp add: power_add[symmetric])
  finally show ?thesis .
qed

lemma grid_representable:
  assumes "\<bar>k\<bar> \<le> 2 ^ 53"
  shows "grid (of_int k * 2 ^ j) = of_int k * 2 ^ j"
proof (cases "\<bar>k\<bar> < 2 ^ 53")
  case True
  then show ?thesis by (rule grid_representable_strict)
next
  case False
  then have "\<bar>k\<bar> = 2 ^ 53" using assms by simp
  then have "k = 2 * 2 ^ 52 \<or> k = 2 * (- (2 ^ 52))" by (auto simp: abs_if split: if_splits)
  then obtain h where h: "k = 2 * h" "\<bar>h\<bar> < 2 ^ 53" by auto
  have "real_of_int k * 2 ^ j = of_int h * 2 ^ Suc j" unfolding h(1) by simp
  then show ?thesis using grid_representable_strict[OF h(2), of "Suc j"] by (simp only:)
qed

lemma roundEven_bound:
  assumes "\<bar>a\<bar> < of_int n"
  shows "\<bar>roundEven a\<bar> \<le> n"
proof -
  have "- real_of_int n < a" "a < of_int n" using assms by linarith+
  then have "- n \<le> \<lfloor>a\<rfloor>" "\<lfloor>a\<rfloor> < n" by linarith+
  then show ?thesis using roundEven_cases[of a] by auto
qed

lemma grid_idem: "grid (grid r) = grid r"
proof -
  have "\<bar>r\<bar> < 2 ^ (ulpExp r + 53)" by (rule ulpExp_upper)
  then have "\<bar>r\<bar> / 2 ^ ulpExp r < 2 ^ 53" by (simp add: power_add field_simps)
  then have "\<bar>r / 2 ^ ulpExp r\<bar> < of_int (2 ^ 53)" by simp
  then have "\<bar>roundEven (r / 2 ^ ulpExp r)\<bar> \<le> 2 ^ 53" by (rule roundEven_bound)
  then show ?thesis unfolding grid_def[of r] by (rule grid_representable)
qed

lemma fl_idem: "fl (fl x) = fl x"
  unfolding fl_grid using tiny_pos by (simp add: grid_idem)

lemma isDouble_fl: "isDouble (fl x)"
  unfolding isDouble_def by (rule fl_idem)

lemma isDouble_minus: "isDouble (- x) = isDouble x"
  unfolding isDouble_def fl_minus by auto

lemma fl_zero: "fl 0 = 0"
  unfolding fl_grid by (simp add: grid_zero)

lemma isDouble_zero: "isDouble 0"
  unfolding isDouble_def by (rule fl_zero)




lemma ulpExp_eq:
  assumes "2 ^ (e + 52) \<le> \<bar>r\<bar>" "\<bar>r\<bar> < 2 ^ (e + 53)"
  shows "ulpExp r = e"
proof -
  define N where "N = \<lfloor>\<bar>r\<bar>\<rfloor>"
  have "real_of_int (2 ^ (e + 52)) \<le> \<bar>r\<bar>" using assms(1) by simp
  then have lo: "2 ^ (e + 52) \<le> N" unfolding N_def by (simp only: le_floor_iff)
  have "\<bar>r\<bar> < real_of_int (2 ^ (e + 53))" using assms(2) by simp
  then have hi: "N < 2 ^ (e + 53)" unfolding N_def by (simp only: floor_less_iff)
  have "(0::int) < 2 ^ (e + 52)" by simp
  then have pos: "0 < N" using lo by linarith
  note b = bitlen_bounds[OF pos]
  have "(2::int) ^ nat (bitlen N - 1) < 2 ^ (e + 53)" using b hi by linarith
  then have 1: "nat (bitlen N - 1) < e + 53" by (rule power_less_imp_less_exp[rotated]) simp
  have "(2::int) ^ (e + 52) < 2 ^ nat (bitlen N)" using b lo by linarith
  then have 2: "e + 52 < nat (bitlen N)" by (rule power_less_imp_less_exp[rotated]) simp
  have "bitlen N = int e + 53" using 1 2 by linarith
  then show ?thesis unfolding ulpExp_def N_def[symmetric] by simp
qed

lemma ulpExp_small:
  assumes "\<bar>r\<bar> < 2 ^ 53"
  shows "ulpExp r = 0"
proof -
  define N where "N = \<lfloor>\<bar>r\<bar>\<rfloor>"
  have "\<bar>r\<bar> < real_of_int (2 ^ 53)" using assms by simp
  then have hi: "N < 2 ^ 53" unfolding N_def by (simp only: floor_less_iff)
  have "0 \<le> N" unfolding N_def by simp
  then have "\<bar>N\<bar> < 2 ^ 53" using hi by simp
  from bitlen_le_53[OF this] show ?thesis
    unfolding ulpExp_def N_def[symmetric] using \<open>0 \<le> N\<close> by simp
qed

lemma tiny_powi: "tiny = 2 powi (- 1074)"
  by (simp only: tiny_def power_int_minus_divide power_int_numeral)

lemma powi_shift: "(2::real) powi k / tiny = 2 powi (k + 1074)"
proof -
  have two: "(2::real) \<noteq> 0" by simp
  have "(2::real) powi (k + 1074) * 2 powi (- 1074) = 2 powi (k + 1074 + (- 1074))"
    by (rule power_int_add[OF disjI1[OF two], symmetric])
  then have "(2::real) powi (k + 1074) * tiny = 2 powi k" unfolding tiny_powi by (simp only:) simp
  then show ?thesis using tiny_pos by (simp add: field_simps)
qed

text \<open>The rounding of a number whose binary exponent is known.\<close>

lemma fl_eval:
  assumes "2 powi k \<le> \<bar>x\<bar>" "\<bar>x\<bar> < 2 powi (k + 1)" "- 1022 \<le> k"
  shows "fl x = of_int (roundEven (x / 2 powi (k - 52))) * 2 powi (k - 52)"
proof -
  define e where "e = nat (k + 1022)"
  have e: "int e = k + 1022" using assms(3) unfolding e_def by simp
  have T: "0 < tiny" by (rule tiny_pos)
  have a: "\<bar>x / tiny\<bar> = \<bar>x\<bar> / tiny" using T by simp
  have "2 powi k / tiny \<le> \<bar>x\<bar> / tiny" using assms(1) T by (simp only: divide_le_cancel) simp
  then have "2 powi (int (e + 52)) \<le> \<bar>x / tiny\<bar>"
    unfolding a powi_shift using e by (simp only: of_nat_add) (simp add: add.commute)
  then have lo: "2 ^ (e + 52) \<le> \<bar>x / tiny\<bar>" by (simp only: power_int_of_nat)
  have "\<bar>x\<bar> / tiny < 2 powi (k + 1) / tiny" using assms(2) T by (simp only: divide_less_cancel) simp
  then have "\<bar>x / tiny\<bar> < 2 powi (int (e + 53))"
    unfolding a powi_shift using e by (simp only: of_nat_add) (simp add: add.commute)
  then have hi: "\<bar>x / tiny\<bar> < 2 ^ (e + 53)" by (simp only: power_int_of_nat)
  have u: "ulpExp (x / tiny) = e" by (rule ulpExp_eq[OF lo hi])
  have "k - 52 + 1074 = int e" using e by simp
  then have "(2::real) powi (k - 52) / tiny = 2 powi (int e)"
    unfolding powi_shift by (simp only:)
  then have s: "(2::real) ^ e * tiny = 2 powi (k - 52)" using T by (simp add: field_simps)
  have "x / tiny / 2 ^ e = x / (2 ^ e * tiny)" by simp
  then have d: "x / tiny / 2 ^ e = x / 2 powi (k - 52)" unfolding s .
  show ?thesis
    unfolding fl_def Let_def u d using s by (simp only: mult.assoc)
qed

text \<open>The rounding of a number below the normal range.\<close>

lemma fl_eval_subnormal:
  assumes "\<bar>x\<bar> < 2 powi (- 1021)"
  shows "fl x = of_int (roundEven (x / tiny)) * tiny"
proof -
  have T: "0 < tiny" by (rule tiny_pos)
  have a: "\<bar>x / tiny\<bar> = \<bar>x\<bar> / tiny" using T by simp
  have "\<bar>x\<bar> / tiny < 2 powi (- 1021) / tiny" using assms T by (simp only: divide_less_cancel) simp
  then have "\<bar>x / tiny\<bar> < 2 powi (- 1021 + 1074)" unfolding a powi_shift .
  then have "\<bar>x / tiny\<bar> < 2 ^ 53" by simp
  from ulpExp_small[OF this] show ?thesis unfolding fl_def Let_def by simp
qed


lemma roundEven_eqI:
  "\<bar>r - of_int m\<bar> < 1 / 2 \<Longrightarrow> roundEven r = m"
proof -
  assume a: "\<bar>r - of_int m\<bar> < 1 / 2"
  have n: "\<bar>of_int (roundEven r) - r\<bar> \<le> \<bar>of_int m - r\<bar>" by (rule roundEven_near)
  have "\<bar>real_of_int (roundEven r) - of_int m\<bar> < 1" using a n by linarith
  then have "\<bar>real_of_int (roundEven r - m)\<bar> < 1" by simp
  then have "\<bar>roundEven r - m\<bar> < 1" by linarith
  then show ?thesis by simp
qed

lemma fl_eqI:
  assumes "2 powi k \<le> \<bar>x\<bar>" "\<bar>x\<bar> < 2 powi (k + 1)" "- 1022 \<le> k"
    and "\<bar>x / 2 powi (k - 52) - of_int m\<bar> < 1 / 2"
    and "y = of_int m * 2 powi (k - 52)"
  shows "fl x = y"
  unfolding fl_eval[OF assms(1,2,3)] roundEven_eqI[OF assms(4)] assms(5) ..

lemma fl_tenth: "fl 0.1 = 3602879701896397 / 36028797018963968"
  by (rule fl_eqI[where k="- 4" and m=7205759403792794]) (simp_all add: power_int_minus)

lemma fl_twentieth: "fl 0.05 = 3602879701896397 / 72057594037927936"
  by (rule fl_eqI[where k="- 5" and m=7205759403792794]) (simp_all add: power_int_minus)

lemma fl_nonneg: "0 \<le> x \<Longrightarrow> 0 \<le> fl x \<and> fl x \<le> 2 * x"
  using fl_nearest[OF isDouble_zero, of x] by linarith

lemma smooth_up:
  assumes z: "isDouble z" and lt: "z < t"
  shows "z \<le> smooth t z \<and> smooth t z < t"
proof -
  define y where "y = t - z"
  define d where "d = fl y"
  define c where "c = fl 0.1"
  define p where "p = fl (d * c)"
  have y: "0 < y" using lt unfolding y_def by simp
  have d: "0 \<le> d" "d \<le> 2 * y" using fl_nonneg[of y] y unfolding d_def by simp_all
  have c: "0 < c" "c < 1 / 8" unfolding c_def fl_tenth by simp_all
  have dc: "0 \<le> d * c" using d(1) c(1) by simp
  have "d * c \<le> (2 * y) * c" using d(2) c(1) by (simp only: mult_le_cancel_right_pos)
  also have "(2 * y) * c < (2 * y) * (1 / 8)" using y c(2) by simp
  finally have dc4: "d * c < y / 4" by simp
  have p: "0 \<le> p" "p \<le> 2 * (d * c)" using fl_nonneg[OF dc] unfolding p_def by simp_all
  have p2: "2 * p < y" using p(2) dc4 by linarith
  have "\<bar>fl (z + p) - (z + p)\<bar> \<le> \<bar>z - (z + p)\<bar>" by (rule fl_nearest[OF z])
  then have "z \<le> fl (z + p)" "fl (z + p) \<le> z + 2 * p" using p(1) by linarith+
  then show ?thesis unfolding smooth_def y_def[symmetric] d_def[symmetric] c_def[symmetric] p_def[symmetric]
    using p2 unfolding y_def by linarith
qed

lemma smooth_minus: "smooth (- t) (- z) = - smooth t z"
proof -
  have "- t - - z = - (t - z)" by simp
  then have "fl (- t - - z) * fl 0.1 = - (fl (t - z) * fl 0.1)"
    by (simp only: fl_minus mult_minus_left)
  then have "- z + fl (fl (- t - - z) * fl 0.1) = - (z + fl (fl (t - z) * fl 0.1))"
    by (simp only: fl_minus minus_add_distrib)
  then show ?thesis unfolding smooth_def by (simp only: fl_minus)
qed

lemma smooth_down:
  assumes z: "isDouble z" and lt: "t < z"
  shows "t < smooth t z \<and> smooth t z \<le> z"
proof -
  have "isDouble (- z)" using z by (simp only: isDouble_minus)
  from smooth_up[OF this, of "- t"] lt show ?thesis unfolding smooth_minus by simp
qed

lemma smooth_fix: "isDouble z \<Longrightarrow> smooth z z = z"
  unfolding smooth_def isDouble_def by (simp add: fl_zero)

lemma isDouble_smooth: "isDouble (smooth t z)"
  unfolding smooth_def by (rule isDouble_fl)


section \<open>Camera smoothing\<close>

lemma cameraStep_smooth: "cameraStep s z = smooth (targetDepth s) z"
  unfolding cameraStep_def smooth_def Let_def ..











section \<open>Placement changes only what it allocates\<close>

lemma upt_join: "a \<le> b \<Longrightarrow> b \<le> c \<Longrightarrow> [a..<b] @ [b..<c] = [a..<(c::nat)]"
  using upt_add_eq_append[of a b "c - b"] by simp

lemma placed_live:
  "placed a b \<Longrightarrow> live (snd b) = live (snd a)
           \<union> (SlabGeometry ` {nextId (snd a)..<nextId (snd b)}
              \<union> SlabMaterial ` {nextId (snd a)..<nextId (snd b)})"
  unfolding placed_def by (elim conjE)

lemma placed_state:
  "placed a b \<Longrightarrow> snd b = (snd a)\<lparr>randomDraws := randomDraws (snd b), nextId := nextId (snd b),
                            live := live (snd b)\<rparr>"
  unfolding placed_def by (elim conjE)

lemma placed_group: "placed a b \<Longrightarrow> fst b = (fst a)\<lparr>children := children (fst b)\<rparr>"
  unfolding placed_def by (elim conjE)

lemma placed_le: "placed a b \<Longrightarrow> nextId (snd a) \<le> nextId (snd b)"
  unfolding placed_def by (elim conjE)

lemma placed_children:
  "placed a b \<Longrightarrow> \<exists>ms. children (fst b) = children (fst a) @ map MeshObj ms
         \<and> map meshId ms = [nextId (snd a)..<nextId (snd b)]
         \<and> list_all (\<lambda>m. meshName m = ''slab_image'' \<and> matMap m = None) ms"
  unfolding placed_def by (elim conjE)

lemma placed_refl: "placed gs gs"
  unfolding placed_def by (auto intro: exI[of _ "[]"])

lemma placed_trans:
  assumes "placed a b" "placed b c"
  shows "placed a c"
proof -
  from assms(1) obtain ms where ms: "children (fst b) = children (fst a) @ map MeshObj ms"
    "map meshId ms = [nextId (snd a)..<nextId (snd b)]"
    "list_all (\<lambda>m. meshName m = ''slab_image'' \<and> matMap m = None) ms"
    using placed_children by blast
  from assms(2) obtain ns where ns: "children (fst c) = children (fst b) @ map MeshObj ns"
    "map meshId ns = [nextId (snd b)..<nextId (snd c)]"
    "list_all (\<lambda>m. meshName m = ''slab_image'' \<and> matMap m = None) ns"
    using placed_children by blast
  have le: "nextId (snd a) \<le> nextId (snd b)" "nextId (snd b) \<le> nextId (snd c)"
    by (rule placed_le[OF assms(1)], rule placed_le[OF assms(2)])
  have 1: "children (fst c) = children (fst a) @ map MeshObj (ms @ ns)"
    using ms ns by simp
  have 2: "map meshId (ms @ ns) = [nextId (snd a)..<nextId (snd c)]"
    using ms(2) ns(2) le by (simp add: upt_join)
  have 3: "list_all (\<lambda>m. meshName m = ''slab_image'' \<and> matMap m = None) (ms @ ns)"
    using ms(3) ns(3) by simp
  have 4: "fst c = (fst a)\<lparr>children := children (fst c)\<rparr>"
  proof -
    have "fst b = (fst a)\<lparr>children := children (fst b)\<rparr>" "fst c = (fst b)\<lparr>children := children (fst c)\<rparr>"
      by (rule placed_group[OF assms(1)], rule placed_group[OF assms(2)])
    then have "fst c = (fst a)\<lparr>children := children (fst b)\<rparr>\<lparr>children := children (fst c)\<rparr>"
      by simp
    then show ?thesis by simp
  qed
  have 5: "live (snd c) = live (snd a)
           \<union> (SlabGeometry ` {nextId (snd a)..<nextId (snd c)}
              \<union> SlabMaterial ` {nextId (snd a)..<nextId (snd c)})"
  proof -
    have g: "SlabGeometry ` {nextId (snd a)..<nextId (snd c)}
        = SlabGeometry ` {nextId (snd a)..<nextId (snd b)} \<union> SlabGeometry ` {nextId (snd b)..<nextId (snd c)}"
      using le by (simp only: image_Un[symmetric] ivl_disj_un_two(3))
    have m: "SlabMaterial ` {nextId (snd a)..<nextId (snd c)}
        = SlabMaterial ` {nextId (snd a)..<nextId (snd b)} \<union> SlabMaterial ` {nextId (snd b)..<nextId (snd c)}"
      using le by (simp only: image_Un[symmetric] ivl_disj_un_two(3))
    have b: "live (snd b) = live (snd a)
           \<union> (SlabGeometry ` {nextId (snd a)..<nextId (snd b)}
              \<union> SlabMaterial ` {nextId (snd a)..<nextId (snd b)})"
     and c: "live (snd c) = live (snd b)
           \<union> (SlabGeometry ` {nextId (snd b)..<nextId (snd c)}
              \<union> SlabMaterial ` {nextId (snd b)..<nextId (snd c)})"
      by (rule placed_live[OF assms(1)], rule placed_live[OF assms(2)])
    show ?thesis unfolding g m c b by (simp add: Un_ac)
  qed
  have 6: "snd c = (snd a)\<lparr>randomDraws := randomDraws (snd c), nextId := nextId (snd c),
                            live := live (snd c)\<rparr>"
  proof -
    have b: "snd b = (snd a)\<lparr>randomDraws := randomDraws (snd b), nextId := nextId (snd b),
                            live := live (snd b)\<rparr>"
     and c: "snd c = (snd b)\<lparr>randomDraws := randomDraws (snd c), nextId := nextId (snd c),
                            live := live (snd c)\<rparr>"
      by (rule placed_state[OF assms(1)], rule placed_state[OF assms(2)])
    show ?thesis by (subst c, subst b) simp
  qed
  have 7: "nextId (snd a) \<le> nextId (snd c)"
    using le by simp
  have 8: "\<exists>ks. children (fst c) = children (fst a) @ map MeshObj ks
         \<and> map meshId ks = [nextId (snd a)..<nextId (snd c)]
         \<and> list_all (\<lambda>m. meshName m = ''slab_image'' \<and> matMap m = None) ks"
    using 1 2 3 by blast
  show ?thesis unfolding placed_def
    by (rule conjI[OF 8 conjI[OF 4 conjI[OF 7 conjI[OF 5 6]]]])
qed

lemma placed_draw: "placed (g, st) (g, st\<lparr>randomDraws := k\<rparr>)"
  unfolding placed_def by (auto intro: exI[of _ "[]"])

lemma placed_addImg: "placed (g, st) (addImg rnd pos rot wd ht (g, st))"
  unfolding placed_def addImg_def Let_def
  apply (simp add: atLeastLessThanSuc)
  apply (rule conjI)
  apply (rule exI[of _ "[\<lparr>meshId = nextId st, meshName = ''slab_image'', meshPosition = pos,
                 meshRotation = rot, planeWidth = wd - cellMargin,
                 planeHeight = ht - cellMargin, urlIndex = nat \<lfloor>rnd (randomDraws st) * real (length imageUrls)\<rfloor>, matOpacity = 0,
                 matMap = None\<rparr>]"])
  apply simp
  apply auto
  done

lemma placed_faceStep:
  "placed (fst (snd (snd acc)), snd (snd (snd acc)))
          (fst (snd (snd (faceStep rnd thr cp rot wd ht acc i))), snd (snd (snd (faceStep rnd thr cp rot wd ht acc i))))"
proof -
  obtain l f g st where acc: "acc = (l, f, g, st)" by (cases acc) auto
  show ?thesis
    unfolding acc faceStep_def
    apply (simp add: placed_refl placed_draw split: prod.splits)
    apply (intro impI allI conjI)
    apply (rule placed_trans[OF placed_draw[of g st "Suc (randomDraws st)"]])
    apply (rule placed_addImg)
    done
qed

lemma placed_fold_faceStep:
  "placed (fst (snd (snd acc)), snd (snd (snd acc)))
      (fst (snd (snd (foldl (faceStep rnd thr cp rot wd ht) acc xs))),
       snd (snd (snd (foldl (faceStep rnd thr cp rot wd ht) acc xs))))"
proof (induction xs arbitrary: acc)
  case Nil
  show ?case by (simp add: placed_refl)
next
  case (Cons x xs)
  show ?case
    using placed_trans[OF placed_faceStep[of acc rnd thr cp rot wd ht x] Cons.IH[of "faceStep rnd thr cp rot wd ht acc x"]]
    by simp
qed

lemma placed_faceLoop: "placed gs (snd (faceLoop rnd cells thr cp rot wd ht gs))"
  using placed_fold_faceStep[of "(- 999, [], fst gs, snd gs)" rnd thr cp rot wd ht "[0..<cells]"]
  unfolding faceLoop_def by simp

lemma placed_populateImages: "placed gs (populateImages rnd w h d gs)"
  unfolding populateImages_def floorLoop_def ceilingLoop_def leftWallLoop_def rightWallLoop_def
  by (blast intro: placed_trans placed_faceLoop)

section \<open>Content placement: the adjacency gate\<close>

lemma faceStep_gap:
  assumes "sorted_wrt (\<lambda>a b. a + 1 < b) (fst (snd acc))" "list_all (\<lambda>x. int x \<le> fst acc) (fst (snd acc))"
  shows "sorted_wrt (\<lambda>a b. a + 1 < b) (fst (snd (faceStep rnd thr cp rot wd ht acc i)))
       \<and> list_all (\<lambda>x. int x \<le> fst (faceStep rnd thr cp rot wd ht acc i))
            (fst (snd (faceStep rnd thr cp rot wd ht acc i)))"
proof -
  obtain l f g st where acc: "acc = (l, f, g, st)" by (cases acc) auto
  have f: "sorted_wrt (\<lambda>a b. a + 1 < b) f" "list_all (\<lambda>x. int x \<le> l) f"
    using assms by (simp_all add: acc)
  have new: "l + 1 < int i \<Longrightarrow> sorted_wrt (\<lambda>a b. a + 1 < b) (f @ [i]) \<and> list_all (\<lambda>x. int x \<le> int i) (f @ [i])"
    using f by (auto simp: sorted_wrt_append list_all_iff)
  show ?thesis
    unfolding acc faceStep_def using f new
    by (simp split: prod.splits)
qed

lemma fold_faceStep_gap:
  "sorted_wrt (\<lambda>a b. a + 1 < b) (fst (snd acc)) \<Longrightarrow> list_all (\<lambda>x. int x \<le> fst acc) (fst (snd acc))
   \<Longrightarrow> sorted_wrt (\<lambda>a b. a + 1 < b) (fst (snd (foldl (faceStep rnd thr cp rot wd ht) acc xs)))"
proof (induction xs arbitrary: acc)
  case Nil
  then show ?case by simp
next
  case (Cons x xs)
  have "sorted_wrt (\<lambda>a b. a + 1 < b) (fst (snd (faceStep rnd thr cp rot wd ht acc x)))"
       "list_all (\<lambda>x'. int x' \<le> fst (faceStep rnd thr cp rot wd ht acc x))
            (fst (snd (faceStep rnd thr cp rot wd ht acc x)))"
    using faceStep_gap[OF Cons.prems] by blast+
  then show ?case using Cons.IH by simp
qed

lemma faceLoop_gap: "sorted_wrt (\<lambda>a b. a + 1 < b) (fst (faceLoop rnd cells thr cp rot wd ht gs))"
  unfolding faceLoop_def
  using fold_faceStep_gap[of "(- 999, [], fst gs, snd gs)" rnd thr cp rot wd ht "[0..<cells]"]
  by simp

lemma gap_not_adjacent:
  assumes "sorted_wrt (\<lambda>a b. a + 1 < b) (xs::nat list)"
  shows "\<forall>i\<in>set xs. \<forall>j\<in>set xs. i \<noteq> j + 1"
proof (intro ballI)
  fix i j assume i: "i \<in> set xs" and j: "j \<in> set xs"
  obtain p where p: "p < length xs" "xs ! p = i" using i by (auto simp: in_set_conv_nth)
  obtain q where q: "q < length xs" "xs ! q = j" using j by (auto simp: in_set_conv_nth)
  consider "p < q" | "p = q" | "q < p" by linarith
  then show "i \<noteq> j + 1"
  proof cases
    case 1
    then have "i + 1 < j" using sorted_wrt_nth_less[OF assms 1 q(1)] p q by simp
    then show ?thesis by simp
  next
    case 2
    then show ?thesis using p q by simp
  next
    case 3
    then have "j + 1 < i" using sorted_wrt_nth_less[OF assms 3 p(1)] p q by simp
    then show ?thesis by simp
  qed
qed

text \<open>
  The recorded indices are the cells of the slabs the loop adds: the new children of the
  group are slabs at the positions of the filled cells, in the same order.
\<close>

lemma faceStep_positions:
  "\<exists>ms fs. children (fst (snd (snd (faceStep rnd thr cp rot wd ht acc i))))
              = children (fst (snd (snd acc))) @ map MeshObj ms
         \<and> fst (snd (faceStep rnd thr cp rot wd ht acc i)) = fst (snd acc) @ fs
         \<and> map meshPosition ms = map cp fs"
proof -
  obtain l f g st where acc: "acc = (l, f, g, st)" by (cases acc) auto
  show ?thesis
  proof (cases "int i > l + 1 \<and> rnd (randomDraws st) > thr")
    case False
    then have "faceStep rnd thr cp rot wd ht acc i = (l, f, g, st)
             \<or> faceStep rnd thr cp rot wd ht acc i = (l, f, g, st\<lparr>randomDraws := Suc (randomDraws st)\<rparr>)"
      unfolding acc faceStep_def by auto
    then show ?thesis unfolding acc
      by (intro exI[of _ "[]"]) auto
  next
    case True
    let ?st = "st\<lparr>randomDraws := Suc (randomDraws st)\<rparr>"
    let ?m = "\<lparr>meshId = nextId ?st, meshName = ''slab_image'', meshPosition = cp i,
                 meshRotation = rot, planeWidth = wd - cellMargin,
                 planeHeight = ht - cellMargin,
                 urlIndex = nat \<lfloor>rnd (randomDraws ?st) * real (length imageUrls)\<rfloor>,
                 matOpacity = 0, matMap = None\<rparr>"
    have "children (fst (snd (snd (faceStep rnd thr cp rot wd ht acc i)))) = children g @ map MeshObj [?m]"
      "fst (snd (faceStep rnd thr cp rot wd ht acc i)) = f @ [i]"
      using True unfolding acc faceStep_def addImg_def Let_def by simp_all
    then show ?thesis unfolding acc
      by (intro exI[of _ "[?m]"] exI[of _ "[i]"]) simp
  qed
qed

lemma fold_faceStep_positions:
  "\<exists>ms fs. children (fst (snd (snd (foldl (faceStep rnd thr cp rot wd ht) acc xs))))
              = children (fst (snd (snd acc))) @ map MeshObj ms
         \<and> fst (snd (foldl (faceStep rnd thr cp rot wd ht) acc xs)) = fst (snd acc) @ fs
         \<and> map meshPosition ms = map cp fs"
proof (induction xs arbitrary: acc)
  case Nil
  show ?case by (intro exI[of _ "[]"]) simp
next
  case (Cons x xs)
  let ?a = "faceStep rnd thr cp rot wd ht acc x"
  obtain ms fs where 1: "children (fst (snd (snd ?a))) = children (fst (snd (snd acc))) @ map MeshObj ms"
      "fst (snd ?a) = fst (snd acc) @ fs" "map meshPosition ms = map cp fs"
    using faceStep_positions[of rnd thr cp rot wd ht acc x] by blast
  obtain ms' fs' where 2:
      "children (fst (snd (snd (foldl (faceStep rnd thr cp rot wd ht) ?a xs))))
         = children (fst (snd (snd ?a))) @ map MeshObj ms'"
      "fst (snd (foldl (faceStep rnd thr cp rot wd ht) ?a xs)) = fst (snd ?a) @ fs'"
      "map meshPosition ms' = map cp fs'"
    using Cons.IH[of ?a] by blast
  show ?case
    by (intro exI[of _ "ms @ ms'"] exI[of _ "fs @ fs'"]) (simp add: 1 2)
qed

lemma faceLoop_positions:
  "\<exists>ms. children (fst (snd (faceLoop rnd cells thr cp rot wd ht gs)))
            = children (fst gs) @ map MeshObj ms
       \<and> map meshPosition ms = map cp (fst (faceLoop rnd cells thr cp rot wd ht gs))"
  using fold_faceStep_positions[of rnd thr cp rot wd ht "(- 999, [], fst gs, snd gs)" "[0..<cells]"]
  unfolding faceLoop_def by auto

text \<open>
  Claim C6. In one invocation of the placement, on each of the four faces, a cell is
  filled only when its index is greater than the previously filled index plus 1: the
  filled indices, in the order they were filled, grow by at least 2. So no two filled
  indices of a face differ by exactly 1.
\<close>

theorem adjacency_law:
  "sorted_wrt (\<lambda>a b. a + 1 < b) (floorFilled rnd w h d gs)
   \<and> sorted_wrt (\<lambda>a b. a + 1 < b) (ceilingFilled rnd w h d gs)
   \<and> sorted_wrt (\<lambda>a b. a + 1 < b) (leftWallFilled rnd w h d gs)
   \<and> sorted_wrt (\<lambda>a b. a + 1 < b) (rightWallFilled rnd w h d gs)
   \<and> (\<forall>i\<in>set (floorFilled rnd w h d gs). \<forall>j\<in>set (floorFilled rnd w h d gs). i \<noteq> j + 1)
   \<and> (\<forall>i\<in>set (ceilingFilled rnd w h d gs). \<forall>j\<in>set (ceilingFilled rnd w h d gs). i \<noteq> j + 1)
   \<and> (\<forall>i\<in>set (leftWallFilled rnd w h d gs). \<forall>j\<in>set (leftWallFilled rnd w h d gs). i \<noteq> j + 1)
   \<and> (\<forall>i\<in>set (rightWallFilled rnd w h d gs). \<forall>j\<in>set (rightWallFilled rnd w h d gs). i \<noteq> j + 1)"
proof -
  have 1: "sorted_wrt (\<lambda>a b. a + 1 < b) (floorFilled rnd w h d gs)"
    unfolding floorFilled_def floorLoop_def by (rule faceLoop_gap)
  have 2: "sorted_wrt (\<lambda>a b. a + 1 < b) (ceilingFilled rnd w h d gs)"
    unfolding ceilingFilled_def ceilingLoop_def by (rule faceLoop_gap)
  have 3: "sorted_wrt (\<lambda>a b. a + 1 < b) (leftWallFilled rnd w h d gs)"
    unfolding leftWallFilled_def leftWallLoop_def by (rule faceLoop_gap)
  have 4: "sorted_wrt (\<lambda>a b. a + 1 < b) (rightWallFilled rnd w h d gs)"
    unfolding rightWallFilled_def rightWallLoop_def by (rule faceLoop_gap)
  show ?thesis
    using 1 2 3 4 gap_not_adjacent[OF 1] gap_not_adjacent[OF 2] gap_not_adjacent[OF 3] gap_not_adjacent[OF 4]
    by blast
qed

theorem adjacency_law_witness:
  "2 \<in> set (floorFilled (\<lambda>_. 0.9) 12 8 6 (\<lparr>posz = 0, children = []\<rparr>, unmounted))
   \<and> 4 \<in> set (floorFilled (\<lambda>_. 0.9) 12 8 6 (\<lparr>posz = 0, children = []\<rparr>, unmounted))
   \<and> (4::nat) \<noteq> 2 + 1
   \<and> sorted_wrt (\<lambda>a b. a + 1 < b)
         (floorFilled (\<lambda>_. 0.9) 12 8 6 (\<lparr>posz = 0, children = []\<rparr>, unmounted))"
  using adjacency_law[where rnd="\<lambda>_. 0.9" and w=12 and h=8 and d=6
          and gs="(\<lparr>posz = 0, children = []\<rparr>, unmounted)"]
  by (simp add: floorFilled_def floorLoop_def faceLoop_def FLOOR_COLS_def upt_rec faceStep_def
        addImg_def Let_def)

lemma upt6: "[0..<6] = [0, 1, 2, 3, 4, 5]"
  by (simp add: upt_rec)

lemma floorFilled_scenario:
  assumes "rnd (randomDraws st) = 0.1" "rnd (randomDraws st + 1) = 0.9"
    "rnd (randomDraws st + 2) = 0.1" "rnd (randomDraws st + 3) = 0.9"
    "rnd (randomDraws st + 4) = 0.1" "rnd (randomDraws st + 5) = 0.9"
  shows "floorFilled rnd w h d (g, st) = [1, 3, 5]"
  using assms
  by (simp add: floorFilled_def floorLoop_def faceLoop_def FLOOR_COLS_def upt6 faceStep_def addImg_def Let_def
        eval_nat_numeral)

text \<open>
  The scenario of the specification, on the code: the draws 0.1, 0.9, 0.1, 0.9, 0.1, 0.9.
  A draw fills when it is greater than 0.80, so the first fill is at cell 1, on the
  second draw; \<open>addImg\<close> takes the third draw for the image; cell 2 is skipped without a
  draw; the fourth draw fills cell 3, and so on.
\<close>

theorem scenario_fills_not_0_2_4: "set (floorFilled scenarioSource 12 8 6 (\<lparr>posz = 0, children = []\<rparr>, unmounted)) \<noteq> {0, 2, 4}"
proof
  assume e: "set (floorFilled scenarioSource 12 8 6 (\<lparr>posz = 0, children = []\<rparr>, unmounted)) = {0, 2, 4}"
  have "floorFilled scenarioSource 12 8 6 (\<lparr>posz = 0, children = []\<rparr>, unmounted) = [1, 3, 5]"
    by (rule floorFilled_scenario) (simp_all add: scenarioSource_def unmounted_def)
  then have "(1::nat) \<in> set (floorFilled scenarioSource 12 8 6 (\<lparr>posz = 0, children = []\<rparr>, unmounted))"
    by simp
  then show False unfolding e by simp
qed

text \<open>
  Claim C3, as amended. When the first six draws of the floor loop are
  0.1, 0.9, 0.1, 0.9, 0.1, 0.9 (each fill taking the following draw for its image), the
  filled cells are 1, 3 and 5.
\<close>

theorem scenario_fills_1_3_5:
  assumes "rnd (randomDraws st) = 0.1" "rnd (randomDraws st + 1) = 0.9"
    "rnd (randomDraws st + 2) = 0.1" "rnd (randomDraws st + 3) = 0.9"
    "rnd (randomDraws st + 4) = 0.1" "rnd (randomDraws st + 5) = 0.9"
  shows "floorFilled rnd w h d (g, st) = [1, 3, 5] \<and> set (floorFilled rnd w h d (g, st)) = {1, 3, 5}"
  using floorFilled_scenario[OF assms] by simp

theorem scenario_fills_1_3_5_witness:
  "scenarioSource (randomDraws unmounted) = 0.1 \<and> scenarioSource (randomDraws unmounted + 1) = 0.9
   \<and> scenarioSource (randomDraws unmounted + 2) = 0.1 \<and> scenarioSource (randomDraws unmounted + 3) = 0.9
   \<and> scenarioSource (randomDraws unmounted + 4) = 0.1 \<and> scenarioSource (randomDraws unmounted + 5) = 0.9
   \<and> floorFilled scenarioSource 12 8 6 (\<lparr>posz = 0, children = []\<rparr>, unmounted) = [1, 3, 5]"
  using scenario_fills_1_3_5[where rnd=scenarioSource and st=unmounted and w=12 and h=8 and d=6
          and g="\<lparr>posz = 0, children = []\<rparr>"]
  by (simp add: scenarioSource_def unmounted_def)

section \<open>Recycling touches only segments, counters and resources\<close>

lemma sameRefs_refl: "sameRefs st st"
  unfolding sameRefs_def by simp

lemma sameRefs_trans:
  assumes "sameRefs a b" "sameRefs b c"
  shows "sameRefs a c"
proof -
  have b: "b = a\<lparr>segmentsRef := segmentsRef b, randomDraws := randomDraws b,
              nextId := nextId b, live := live b\<rparr>"
   and c: "c = b\<lparr>segmentsRef := segmentsRef c, randomDraws := randomDraws c,
              nextId := nextId c, live := live c\<rparr>"
    using assms unfolding sameRefs_def by blast+
  show ?thesis unfolding sameRefs_def by (subst c, subst b) simp
qed

lemma sameRefs_fields:
  assumes "sameRefs st st'"
  shows "sceneRef st' = sceneRef st" "cameraRef st' = cameraRef st" "rendererRef st' = rendererRef st"
    "scrollPosRef st' = scrollPosRef st" "scrollListener st' = scrollListener st"
    "resizeListener st' = resizeListener st" "frameRequested st' = frameRequested st"
    "rendererDisposed st' = rendererDisposed st" "lateTextures st' = lateTextures st"
proof -
  have e: "st' = st\<lparr>segmentsRef := segmentsRef st', randomDraws := randomDraws st',
              nextId := nextId st', live := live st'\<rparr>"
    using assms unfolding sameRefs_def .
  show "sceneRef st' = sceneRef st" by (subst e) simp
  show "cameraRef st' = cameraRef st" by (subst e) simp
  show "rendererRef st' = rendererRef st" by (subst e) simp
  show "scrollPosRef st' = scrollPosRef st" by (subst e) simp
  show "scrollListener st' = scrollListener st" by (subst e) simp
  show "resizeListener st' = resizeListener st" by (subst e) simp
  show "frameRequested st' = frameRequested st" by (subst e) simp
  show "rendererDisposed st' = rendererDisposed st" by (subst e) simp
  show "lateTextures st' = lateTextures st" by (subst e) simp
qed

lemma placed_sameRefs:
  assumes "placed (g, st) (g', st')"
  shows "sameRefs st st'" "segmentsRef st' = segmentsRef st"
proof -
  have e: "st' = st\<lparr>randomDraws := randomDraws st', nextId := nextId st', live := live st'\<rparr>"
    using placed_state[OF assms] by simp
  show s: "segmentsRef st' = segmentsRef st" by (subst e) simp
  show "sameRefs st st'" unfolding sameRefs_def s by (subst e) simp
qed

lemma live_cong: "A = B \<Longrightarrow> st\<lparr>live := A\<rparr> = st\<lparr>live := B\<rparr>"
  by simp

lemma disposeSlab_eq:
  "disposeSlab c (g, st) = (g\<lparr>children := remove1 c (children g)\<rparr>, st\<lparr>live := live st - slabResources c\<rparr>)"
  by (cases c) (auto simp: disposeSlab_def Let_def split: option.splits intro!: live_cong)

lemma fold_disposeSlab:
  "foldl (\<lambda>acc c. disposeSlab c acc) (g, st) cs
     = (g\<lparr>children := foldl (\<lambda>ch c. remove1 c ch) (children g) cs\<rparr>,
        st\<lparr>live := live st - \<Union> (set (map slabResources cs))\<rparr>)"
proof (induction cs arbitrary: g st)
  case Nil
  show ?case by simp
next
  case (Cons c cs)
  have "live st - slabResources c - \<Union> (set (map slabResources cs)) = live st - \<Union> (set (map slabResources (c # cs)))"
    by auto
  then show ?case by (simp add: disposeSlab_eq Cons.IH)
qed

lemma fold_remove1_filter:
  "list_all (\<lambda>x. \<not> P x) pre \<Longrightarrow>
   foldl (\<lambda>ch c. remove1 c ch) (pre @ ys) (filter P ys) = pre @ filter (\<lambda>x. \<not> P x) ys"
proof (induction ys arbitrary: pre)
  case Nil
  show ?case by simp
next
  case (Cons y ys)
  show ?case
  proof (cases "P y")
    case True
    then have "y \<notin> set pre" using Cons.prems by (auto simp: list_all_iff)
    then have "remove1 y (pre @ y # ys) = pre @ ys" by (simp add: remove1_append)
    then show ?thesis using True Cons.IH[OF Cons.prems] by simp
  next
    case False
    then have "list_all (\<lambda>x. \<not> P x) (pre @ [y])" using Cons.prems by simp
    from Cons.IH[OF this] show ?thesis using False by simp
  qed
qed

lemma releaseSlabs_eq:
  "releaseSlabs (g, st)
     = (g\<lparr>children := filter (\<lambda>c. objName c \<noteq> ''slab_image'') (children g)\<rparr>,
        st\<lparr>live := live st - \<Union> (set (map slabResources
                 (filter (\<lambda>c. objName c = ''slab_image'') (children g))))\<rparr>)"
  unfolding releaseSlabs_def Let_def fst_conv fold_disposeSlab
  using fold_remove1_filter[of "\<lambda>c. objName c = ''slab_image''" "[]" "children g"]
  by simp

lemma repopulate_placed:
  "placed (releaseSlabs gs) (repopulate rnd gs)"
  unfolding repopulate_def Let_def by (rule placed_populateImages)

lemma releaseSlabs_frame:
  "sameRefs st (snd (releaseSlabs (g, st)))"
  "segmentsRef (snd (releaseSlabs (g, st))) = segmentsRef st"
  "nextId (snd (releaseSlabs (g, st))) = nextId st"
  "posz (fst (releaseSlabs (g, st))) = posz g"
  by (simp_all add: releaseSlabs_eq sameRefs_def)

lemma placed_posz: "placed a b \<Longrightarrow> posz (fst b) = posz (fst a)"
proof -
  assume "placed a b"
  then have e: "fst b = (fst a)\<lparr>children := children (fst b)\<rparr>" by (rule placed_group)
  show ?thesis by (subst e) simp
qed

lemma repopulate_frame:
  "sameRefs st (snd (repopulate rnd (g, st)))"
  "segmentsRef (snd (repopulate rnd (g, st))) = segmentsRef st"
  "posz (fst (repopulate rnd (g, st))) = posz g"
proof -
  have p: "placed (fst (releaseSlabs (g, st)), snd (releaseSlabs (g, st)))
             (fst (repopulate rnd (g, st)), snd (repopulate rnd (g, st)))"
    using repopulate_placed[where rnd=rnd and gs="(g, st)"] by simp
  show "sameRefs st (snd (repopulate rnd (g, st)))"
    using sameRefs_trans[OF releaseSlabs_frame(1) placed_sameRefs(1)[OF p]] .
  show "segmentsRef (snd (repopulate rnd (g, st))) = segmentsRef st"
    using placed_sameRefs(2)[OF p] releaseSlabs_frame(2) by simp
  show "posz (fst (repopulate rnd (g, st))) = posz g"
    using placed_posz[OF p] releaseSlabs_frame(4) by simp
qed

lemma sameRefs_segments: "sameRefs st st' \<Longrightarrow> sameRefs st (st'\<lparr>segmentsRef := segs\<rparr>)"
proof -
  assume "sameRefs st st'"
  then have e: "st' = st\<lparr>segmentsRef := segmentsRef st', randomDraws := randomDraws st',
              nextId := nextId st', live := live st'\<rparr>"
    unfolding sameRefs_def .
  show ?thesis unfolding sameRefs_def by (subst e) simp
qed

lemma forwardRecycle_sameRefs: "sameRefs st (forwardRecycle rnd camZ i st)"
  unfolding forwardRecycle_def Let_def
  by (simp add: sameRefs_refl split: prod.splits)
     (metis repopulate_frame(1) sameRefs_segments snd_conv)

lemma backwardRecycle_sameRefs: "sameRefs st (backwardRecycle rnd camZ i st)"
  unfolding backwardRecycle_def Let_def
  by (simp add: sameRefs_refl split: prod.splits)
     (metis repopulate_frame(1) sameRefs_segments snd_conv)

lemma recycleSegment_sameRefs: "sameRefs st (recycleSegment rnd camZ st i)"
  unfolding recycleSegment_def
  by (rule sameRefs_trans[OF forwardRecycle_sameRefs backwardRecycle_sameRefs])

lemma fold_recycleSegment_sameRefs: "sameRefs st (foldl (recycleSegment rnd camZ) st xs)"
proof (induction xs arbitrary: st)
  case Nil
  show ?case by (simp add: sameRefs_refl)
next
  case (Cons x xs)
  show ?case using sameRefs_trans[OF recycleSegment_sameRefs Cons.IH] by simp
qed

lemma recyclePass_sameRefs: "sameRefs st (recyclePass rnd camZ st)"
  unfolding recyclePass_def by (rule fold_recycleSegment_sameRefs)

section \<open>The mount effect, the frame and the camera\<close>

lemma createSegment_frame:
  "sameRefs st (snd (createSegment rnd z st))"
  "posz (fst (createSegment rnd z st)) = z"
proof -
  let ?lines = "\<lparr>lineId = nextId st, vertices = segmentVertices, lineColor = 0xb0b0b0,
                    transparent = True, lineOpacity = 0.5, needsUpdate = False\<rparr>"
  let ?g = "\<lparr>posz = z, children = [LineSegmentsObj ?lines]\<rparr>"
  let ?s = "st\<lparr>nextId := Suc (nextId st), live := live st \<union> {LineGeometry (nextId st), LineMaterial (nextId st)}\<rparr>"
  have c: "createSegment rnd z st
             = populateImages rnd (TUNNEL_WIDTH / 2) (TUNNEL_HEIGHT / 2) (real_of_int SEGMENT_DEPTH) (?g, ?s)"
    unfolding createSegment_def Let_def ..
  have p: "placed (?g, ?s) (fst (createSegment rnd z st), snd (createSegment rnd z st))"
    unfolding c using placed_populateImages[of "(?g, ?s)"] by simp
  have a: "sameRefs st ?s" unfolding sameRefs_def by simp
  show "sameRefs st (snd (createSegment rnd z st))"
    using sameRefs_trans[OF a placed_sameRefs(1)[OF p]] .
  show "posz (fst (createSegment rnd z st)) = z"
    using placed_posz[OF p] by simp
qed

lemma pushSegment_frame:
  "sameRefs st (snd (pushSegment rnd (segs, st) i))"
  "map posz (fst (pushSegment rnd (segs, st) i)) = map posz segs @ [- int i * SEGMENT_DEPTH]"
  unfolding pushSegment_def
  using createSegment_frame[where st=st and rnd=rnd and z="- int i * SEGMENT_DEPTH"]
  by (auto split: prod.splits)

lemma fold_pushSegment:
  "sameRefs st (snd (foldl (pushSegment rnd) (segs, st) xs))
   \<and> map posz (fst (foldl (pushSegment rnd) (segs, st) xs))
       = map posz segs @ map (\<lambda>i. - int i * SEGMENT_DEPTH) xs"
proof (induction xs arbitrary: segs st)
  case Nil
  show ?case by (simp add: sameRefs_refl)
next
  case (Cons x xs)
  obtain segs' s' where c: "pushSegment rnd (segs, st) x = (segs', s')"
    by (cases "pushSegment rnd (segs, st) x")
  have f: "sameRefs st s'" "map posz segs' = map posz segs @ [- int x * SEGMENT_DEPTH]"
    using pushSegment_frame[where st=st and rnd=rnd and segs=segs and i=x] unfolding c by simp_all
  have ih: "sameRefs s' (snd (foldl (pushSegment rnd) (segs', s') xs))"
    "map posz (fst (foldl (pushSegment rnd) (segs', s') xs))
       = map posz segs' @ map (\<lambda>i. - int i * SEGMENT_DEPTH) xs"
    using Cons.IH[where segs="segs'" and st="s'"] by simp_all
  show ?case
    using sameRefs_trans[OF f(1) ih(1)] ih(2) f(2) by (simp add: c)
qed

lemma generateSegments_frame:
  "sameRefs st (generateSegments rnd st)"
  "map posz (segmentsRef (generateSegments rnd st)) = map (\<lambda>i. - int i * SEGMENT_DEPTH) [0..<NUM_SEGMENTS]"
proof -
  let ?r = "foldl (pushSegment rnd) ([], st) [0..<NUM_SEGMENTS]"
  have g: "generateSegments rnd st = (snd ?r)\<lparr>segmentsRef := fst ?r\<rparr>"
    unfolding generateSegments_def by (simp split: prod.splits)
  have f: "sameRefs st (snd ?r)" "map posz (fst ?r) = map (\<lambda>i. - int i * SEGMENT_DEPTH) [0..<NUM_SEGMENTS]"
    using fold_pushSegment[where st=st and rnd=rnd and segs="[]" and xs="[0..<NUM_SEGMENTS]"] by simp_all
  show "sameRefs st (generateSegments rnd st)"
    unfolding g by (rule sameRefs_segments[OF f(1)])
  show "map posz (segmentsRef (generateSegments rnd st)) = map (\<lambda>i. - int i * SEGMENT_DEPTH) [0..<NUM_SEGMENTS]"
    unfolding g using f(2) by simp
qed

lemma animate_ready:
  assumes "cameraRef st = Some z" "sceneRef st \<noteq> None" "rendererRef st \<noteq> None"
  shows "animate rnd st
           = recyclePass rnd (cameraStep (scrollPosRef st) z)
               (st\<lparr>frameRequested := True, cameraRef := Some (cameraStep (scrollPosRef st) z)\<rparr>)"
  using assms unfolding animate_def Let_def by auto

lemma animate_refs:
  assumes "cameraRef st = Some z" "sceneRef st \<noteq> None" "rendererRef st \<noteq> None"
  shows "cameraRef (animate rnd st) = Some (cameraStep (scrollPosRef st) z)"
    "sceneRef (animate rnd st) = sceneRef st" "rendererRef (animate rnd st) = rendererRef st"
    "scrollPosRef (animate rnd st) = scrollPosRef st"
  unfolding animate_ready[OF assms]
  using sameRefs_fields[OF recyclePass_sameRefs[where
      st="st\<lparr>frameRequested := True, cameraRef := Some (cameraStep (scrollPosRef st) z)\<rparr>"
      and rnd=rnd and camZ="cameraStep (scrollPosRef st) z"]]
  by simp_all

lemma targetDepth_zero: "targetDepth 0 = 0"
  unfolding targetDepth_def by (simp add: fl_zero)

lemma cameraStep_zero: "cameraStep 0 0 = 0"
  unfolding cameraStep_smooth targetDepth_zero by (rule smooth_fix[OF isDouble_zero])

lemma mountEffect_refs:
  "cameraRef (mountEffect rnd True unmounted) = Some 0"
  "sceneRef (mountEffect rnd True unmounted) = Some \<lparr>background = None, fog = None\<rparr>"
  "rendererRef (mountEffect rnd True unmounted) = Some ()"
proof -
  let ?s1 = "unmounted\<lparr>sceneRef := Some \<lparr>background = None, fog = None\<rparr>,
                          cameraRef := Some 0, rendererRef := Some ()\<rparr>"
  let ?s2 = "generateSegments rnd ?s1"
  have f: "cameraRef ?s2 = Some 0" "sceneRef ?s2 = Some \<lparr>background = None, fog = None\<rparr>"
          "rendererRef ?s2 = Some ()" "scrollPosRef ?s2 = 0"
    using sameRefs_fields[OF generateSegments_frame(1)[where st="?s1" and rnd=rnd]] by (simp_all add: unmounted_def)
  have a: "cameraRef (animate rnd ?s2) = Some 0" "sceneRef (animate rnd ?s2) = Some \<lparr>background = None, fog = None\<rparr>"
     "rendererRef (animate rnd ?s2) = Some ()"
    using animate_refs[where st="?s2" and z=0 and rnd=rnd] f by (simp_all add: cameraStep_zero)
  show "cameraRef (mountEffect rnd True unmounted) = Some 0"
    "sceneRef (mountEffect rnd True unmounted) = Some \<lparr>background = None, fog = None\<rparr>"
    "rendererRef (mountEffect rnd True unmounted) = Some ()"
    unfolding mountEffect_def Let_def using a by simp_all
qed

lemma targetDepth_nonpos: "0 \<le> y \<Longrightarrow> targetDepth y \<le> 0"
proof -
  assume y: "0 \<le> y"
  have c: "0 \<le> fl 0.05" unfolding fl_twentieth by simp
  have "0 \<le> y * fl 0.05" using y c by simp
  then have "0 \<le> fl (y * fl 0.05)" using fl_nonneg by blast
  moreover have "targetDepth y = - fl (y * fl 0.05)"
    unfolding targetDepth_def by (simp only: mult_minus_left fl_minus)
  ultimately show ?thesis by simp
qed

lemma cameraStep_nonpos:
  assumes "0 \<le> y" "isDouble z" "z \<le> 0"
  shows "cameraStep y z \<le> 0" "isDouble (cameraStep y z)"
proof -
  let ?t = "targetDepth y"
  have t: "?t \<le> 0" by (rule targetDepth_nonpos[OF assms(1)])
  consider (up) "z < ?t" | (eq) "z = ?t" | (down) "?t < z" by linarith
  then show "cameraStep y z \<le> 0"
  proof cases
    case up
    from smooth_up[OF assms(2) up] t show ?thesis unfolding cameraStep_smooth by linarith
  next
    case eq
    then show ?thesis unfolding cameraStep_smooth using smooth_fix[OF assms(2)] assms(3) by simp
  next
    case down
    from smooth_down[OF assms(2) down] assms(3) show ?thesis unfolding cameraStep_smooth by linarith
  qed
  show "isDouble (cameraStep y z)" unfolding cameraStep_smooth by (rule isDouble_smooth)
qed

lemma frames_camera:
  assumes "\<forall>y\<in>set ys. 0 \<le> y" "cameraRef st = Some z" "isDouble z" "z \<le> 0"
    "sceneRef st \<noteq> None" "rendererRef st \<noteq> None"
  shows "\<exists>z'. cameraRef (foldl (frame rnd) st ys) = Some z' \<and> isDouble z' \<and> z' \<le> 0"
  using assms
proof (induction ys arbitrary: st z)
  case Nil
  then show ?case by simp
next
  case (Cons y ys)
  let ?s = "onScroll y st"
  have s: "cameraRef ?s = Some z" "sceneRef ?s \<noteq> None" "rendererRef ?s \<noteq> None" "scrollPosRef ?s = y"
    using Cons.prems by (simp_all add: onScroll_def)
  have a: "cameraRef (frame rnd st y) = Some (cameraStep y z)"
     "sceneRef (frame rnd st y) \<noteq> None" "rendererRef (frame rnd st y) \<noteq> None"
    unfolding frame_def using animate_refs[OF s(1) s(2) s(3), where rnd=rnd] s by simp_all
  have y: "0 \<le> y" using Cons.prems(1) by simp
  note le = cameraStep_nonpos[OF y Cons.prems(3) Cons.prems(4)]
  have "\<forall>y\<in>set ys. 0 \<le> y" using Cons.prems by simp
  from Cons.IH[OF this a(1) le(2) le(1) a(2) a(3)] show ?case by simp
qed

text \<open>
  Claim C10. Whatever non-negative scroll offsets the frames see, the camera, which
  starts at depth 0, is at a depth less than or equal to 0 after every frame.
\<close>

theorem camera_never_in_front:
  assumes "\<forall>y\<in>set ys. 0 \<le> y"
  shows "\<exists>z. cameraRef (foldl (frame rnd) (mountEffect rnd True unmounted) ys) = Some z \<and> z \<le> 0"
  using frames_camera[OF assms mountEffect_refs(1) isDouble_zero] mountEffect_refs by blast

theorem camera_never_in_front_witness:
  "(0::real) \<le> 100 \<and> (0::real) \<le> 40
   \<and> (\<exists>z. cameraRef (foldl (frame (\<lambda>_. 0)) (mountEffect (\<lambda>_. 0) True unmounted) [100, 40]) = Some z
          \<and> z \<le> 0)"
  using camera_never_in_front[where ys="[100, 40]" and rnd="\<lambda>_. 0"]
  by simp

section \<open>The theme effect\<close>

lemma themeLine_idem: "themeLine c p (themeLine c p child) = themeLine c p child"
  by (cases child) (simp_all add: themeLine_def)

lemma themeLine_slab: "isSlab child \<Longrightarrow> themeLine c p child = child"
  by (cases child) (simp_all add: themeLine_def)

lemma themeLine_isSlab: "isSlab (themeLine c p child) = isSlab child"
  by (cases child) (simp_all add: themeLine_def)

lemma filter_slabs_themeLine: "filter isSlab (map (themeLine c p) cs) = filter isSlab cs"
  by (induction cs) (auto simp: themeLine_isSlab themeLine_slab)

lemma themeLine_line1:
  "LineSegmentsObj l = themeLine c p x \<Longrightarrow> lineColor l = c \<and> lineOpacity l = p"
  by (cases x) (auto simp: themeLine_def)

lemma themeEffect_some:
  assumes "sceneRef st = Some sc"
  shows "themeEffect flag st =
          st\<lparr>sceneRef := Some (sc\<lparr>background := Some (bgHex flag),
                                   fog := (case fog sc of Some c \<Rightarrow> Some (fogHex flag) | None \<Rightarrow> None)\<rparr>),
             segmentsRef := map (\<lambda>segment. segment\<lparr>children :=
                         map (themeLine (lineHex flag) (lineOp flag)) (children segment)\<rparr>)
                    (segmentsRef st)\<rparr>"
  using assms unfolding themeEffect_def Let_def by (simp split: option.splits)

text \<open>
  Claim C8. Applying the same theme flag twice in a row gives the state that applying
  it once gives: background, fog, and the colour and opacity of every segment's line
  material (and everything else of the state) are the same.
\<close>

theorem theme_idempotent: "themeEffect flag (themeEffect flag st) = themeEffect flag st"
proof (cases "sceneRef st")
  case None
  then show ?thesis by (simp add: themeEffect_def)
next
  case (Some sc)
  let ?sc = "sc\<lparr>background := Some (bgHex flag),
                fog := (case fog sc of Some c \<Rightarrow> Some (fogHex flag) | None \<Rightarrow> None)\<rparr>"
  have s: "sceneRef (themeEffect flag st) = Some ?sc"
    unfolding themeEffect_some[OF Some] by simp
  show ?thesis
    unfolding themeEffect_some[OF s]
    unfolding themeEffect_some[OF Some]
    by (simp add: themeLine_idem comp_def split: option.splits)
qed

text \<open>
  What the effect does to a state with a scene: the background becomes the palette's
  colour; in every segment the colour and opacity of every line material become the
  palette's values; every slab stays as it was, child for child, and so do the depth
  positions and the live resources. The fog colour is set only when the scene has a
  fog.
\<close>

lemma theme_sets_background_and_lines:
  assumes "sceneRef st = Some sc"
  shows "(\<exists>sc'. sceneRef (themeEffect flag st) = Some sc'
            \<and> background sc' = Some (bgHex flag)
            \<and> fog sc' = (case fog sc of Some c \<Rightarrow> Some (fogHex flag) | None \<Rightarrow> None))
       \<and> (\<forall>g\<in>set (segmentsRef (themeEffect flag st)). \<forall>l.
             LineSegmentsObj l \<in> set (children g) \<longrightarrow>
               lineColor l = lineHex flag \<and> lineOpacity l = lineOp flag)
       \<and> map (\<lambda>g. filter isSlab (children g)) (segmentsRef (themeEffect flag st))
           = map (\<lambda>g. filter isSlab (children g)) (segmentsRef st)
       \<and> map (\<lambda>g. length (children g)) (segmentsRef (themeEffect flag st))
           = map (\<lambda>g. length (children g)) (segmentsRef st)
       \<and> map posz (segmentsRef (themeEffect flag st)) = map posz (segmentsRef st)
       \<and> live (themeEffect flag st) = live st"
  unfolding themeEffect_some[OF assms]
  by (auto simp: comp_def filter_slabs_themeLine dest: themeLine_line1)

text \<open>
  The scene of the mounted component never has a fog: the mount creates it without
  one, and no frame, image load or theme change gives it one.
\<close>

lemma step_no_fog:
  assumes "cameraRef st = Some z" "sceneRef st = Some sc" "fog sc = None" "rendererRef st \<noteq> None"
  shows "\<exists>z' sc'. cameraRef (step rnd st ev) = Some z' \<and> sceneRef (step rnd st ev) = Some sc'
           \<and> fog sc' = None \<and> rendererRef (step rnd st ev) \<noteq> None"
proof (cases ev)
  case (Frame y)
  let ?s = "onScroll y st"
  have s: "cameraRef ?s = Some z" "sceneRef ?s \<noteq> None" "rendererRef ?s \<noteq> None"
    "sceneRef ?s = Some sc"
    using assms by (simp_all add: onScroll_def)
  show ?thesis
    unfolding Frame step.simps frame_def
    using animate_refs(1,2,3)[OF s(1,2,3), where rnd=rnd] s assms(3) by simp
next
  case (TextureLoaded n)
  show ?thesis unfolding TextureLoaded step.simps textureLoaded_def using assms by simp
next
  case (ThemeChange flag)
  show ?thesis unfolding ThemeChange step.simps themeEffect_some[OF assms(2)] using assms by simp
qed

lemma fold_step_no_fog:
  assumes "cameraRef st = Some z" "sceneRef st = Some sc" "fog sc = None" "rendererRef st \<noteq> None"
  shows "\<exists>sc'. sceneRef (foldl (step rnd) st evs) = Some sc' \<and> fog sc' = None"
  using assms
proof (induction evs arbitrary: st z sc)
  case Nil
  then show ?case by simp
next
  case (Cons ev evs)
  obtain z' sc' where s: "cameraRef (step rnd st ev) = Some z'" "sceneRef (step rnd st ev) = Some sc'"
      "fog sc' = None" "rendererRef (step rnd st ev) \<noteq> None"
    using step_no_fog[OF Cons.prems, where rnd=rnd and ev=ev] by blast
  from Cons.IH[OF s] show ?case by simp
qed

lemma run_no_fog: "\<exists>sc. sceneRef (run rnd evs) = Some sc \<and> fog sc = None"
proof -
  have r: "rendererRef (mountEffect rnd True unmounted) \<noteq> None"
    using mountEffect_refs(3)[where rnd=rnd] by simp
  have f: "fog \<lparr>background = None, fog = None\<rparr> = None" by simp
  show ?thesis
    unfolding run_def
    by (rule fold_step_no_fog[OF mountEffect_refs(1) mountEffect_refs(2) f r])
qed

text \<open>
  Claim C5, on the code. After the mount and any frames, image loads and theme
  changes, applying a theme flag sets the background to the palette's colour, but the
  scene has no fog, before and after: no fog colour is set to the palette's value.
  The effect sets the colour of a fog when there is one (line 311), and the density of
  a fog is configured (\<open>FOG_DENSITY\<close>, line 27), but the mount effect never creates
  the fog.
\<close>

theorem theme_sets_no_fog_colour:
  "\<exists>sc. sceneRef (themeEffect flag (run rnd evs)) = Some sc
        \<and> background sc = Some (bgHex flag) \<and> fog sc = None"
proof -
  obtain sc where sc: "sceneRef (run rnd evs) = Some sc" "fog sc = None"
    using run_no_fog by blast
  show ?thesis unfolding themeEffect_some[OF sc(1)] using sc(2) by simp
qed

section \<open>Resource accounting\<close>

lemma wf_named: "wfChild c \<Longrightarrow> (objName c = ''slab_image'') = isSlab c"
  by (cases c) simp_all

lemma filter_named:
  "list_all wfChild cs \<Longrightarrow> filter (\<lambda>c. objName c = ''slab_image'') cs = filter isSlab cs"
  by (induction cs) (simp_all add: wf_named)

lemma filter_not_named:
  "list_all wfChild cs \<Longrightarrow> filter (\<lambda>c. objName c \<noteq> ''slab_image'') cs = filter (\<lambda>c. \<not> isSlab c) cs"
  by (induction cs) (simp_all add: wf_named)

lemma childResources_ids:
  "wfChild c \<Longrightarrow> r \<in> childResources c \<Longrightarrow>
     (slabIdOf r = None \<and> \<not> isSlab c) \<or> (\<exists>n\<in>set (childIds c). slabIdOf r = Some n)"
  by (cases c) (auto split: option.splits)

lemma groupResources_ids:
  assumes "wfGroup g" "r \<in> groupResources g"
  shows "slabIdOf r = None \<or> (\<exists>n\<in>set (meshIds g). slabIdOf r = Some n)"
proof -
  obtain c where c: "c \<in> set (children g)" "r \<in> childResources c"
    using assms(2) unfolding groupResources_def by auto
  have "wfChild c" using assms(1) c(1) unfolding wfGroup_def by (simp add: list_all_iff)
  from childResources_ids[OF this c(2)] show ?thesis
    using c(1) unfolding meshIds_def by auto
qed

lemma sceneResources_ids:
  assumes "list_all wfGroup segs" "r \<in> sceneResources segs"
  shows "slabIdOf r = None \<or> (\<exists>n\<in>set (concat (map meshIds segs)). slabIdOf r = Some n)"
proof -
  obtain g where g: "g \<in> set segs" "r \<in> groupResources g"
    using assms(2) unfolding sceneResources_def by auto
  have "wfGroup g" using assms(1) g(1) by (simp add: list_all_iff)
  from groupResources_ids[OF this g(2)] show ?thesis using g(1) by auto
qed

lemma slabResources_ids:
  "wfChild c \<Longrightarrow> r \<in> slabResources c \<Longrightarrow> \<exists>n\<in>set (childIds c). slabIdOf r = Some n"
  by (cases c) (auto split: option.splits)

lemma groupResources_split:
  "groupResources g
     = \<Union> (set (map childResources (filter (\<lambda>c. \<not> isSlab c) (children g))))
       \<union> \<Union> (set (map slabResources (filter isSlab (children g))))"
proof -
  have "\<Union> (set (map childResources cs))
     = \<Union> (set (map childResources (filter (\<lambda>c. \<not> isSlab c) cs)))
       \<union> \<Union> (set (map slabResources (filter isSlab cs)))" for cs
  proof (induction cs)
    case Nil
    show ?case by simp
  next
    case (Cons c cs)
    show ?case by (cases c) (use Cons in auto)
  qed
  then show ?thesis unfolding groupResources_def .
qed

lemma lines_no_slab_id:
  "r \<in> \<Union> (set (map childResources (filter (\<lambda>c. \<not> isSlab c) cs))) \<Longrightarrow> slabIdOf r = None"
proof (induction cs)
  case Nil
  then show ?case by simp
next
  case (Cons c cs)
  then show ?case by (cases c) auto
qed

lemma slabs_have_id:
  "list_all wfChild cs \<Longrightarrow> r \<in> \<Union> (set (map slabResources (filter isSlab cs)))
     \<Longrightarrow> \<exists>n\<in>set (concat (map childIds cs)). slabIdOf r = Some n"
proof (induction cs)
  case Nil
  then show ?case by simp
next
  case (Cons c cs)
  show ?case
  proof (cases "r \<in> slabResources c")
    case True
    have "wfChild c" using Cons.prems(1) by simp
    from slabResources_ids[OF this True] show ?thesis by auto
  next
    case False
    then have "r \<in> \<Union> (set (map slabResources (filter isSlab cs)))"
      using Cons.prems(2) by (auto split: if_splits)
    moreover have "list_all wfChild cs" using Cons.prems(1) by simp
    ultimately show ?thesis using Cons.IH by auto
  qed
qed

lemma meshIds_lines: "concat (map childIds (filter (\<lambda>c. \<not> isSlab c) cs)) = []"
proof (induction cs)
  case Nil
  show ?case by simp
next
  case (Cons c cs)
  then show ?case by (cases c) simp_all
qed

lemma wfChild_lines: "list_all wfChild (filter (\<lambda>c. \<not> isSlab c) cs)"
proof (induction cs)
  case Nil
  show ?case by simp
next
  case (Cons c cs)
  then show ?case by (cases c) simp_all
qed

lemma resources_fresh_slabs:
  assumes "map meshId ms = [a..<b]" "list_all (\<lambda>m. meshName m = ''slab_image'' \<and> matMap m = None) ms"
  shows "\<Union> (set (map childResources (map MeshObj ms))) = newSlabResources a b"
    "concat (map childIds (map MeshObj ms)) = [a..<b]"
    "list_all wfChild (map MeshObj ms)"
proof -
  have r: "\<Union> (set (map childResources (map MeshObj ms)))
          = SlabGeometry ` set (map meshId ms) \<union> SlabMaterial ` set (map meshId ms)"
    using assms(2) by (induction ms) auto
  show "\<Union> (set (map childResources (map MeshObj ms))) = newSlabResources a b"
    unfolding r assms(1) newSlabResources_def by simp
  have "concat (map childIds (map MeshObj ms)) = map meshId ms"
    by (induction ms) simp_all
  then show "concat (map childIds (map MeshObj ms)) = [a..<b]" using assms(1) by simp
  show "list_all wfChild (map MeshObj ms)"
    using assms(2) by (induction ms) simp_all
qed

lemma placed_resources:
  assumes "placed (g1, st1) (g', st')"
  shows "groupResources g' = groupResources g1 \<union> newSlabResources (nextId st1) (nextId st')"
    "meshIds g' = meshIds g1 @ [nextId st1..<nextId st']"
    "wfGroup g1 \<Longrightarrow> wfGroup g'"
    "live st' = live st1 \<union> newSlabResources (nextId st1) (nextId st')"
    "nextId st1 \<le> nextId st'"
proof -
  obtain ms where ms: "children g' = children g1 @ map MeshObj ms"
    "map meshId ms = [nextId st1..<nextId st']"
    "list_all (\<lambda>m. meshName m = ''slab_image'' \<and> matMap m = None) ms"
    using placed_children[OF assms] by auto
  note f = resources_fresh_slabs[OF ms(2) ms(3)]
  show "groupResources g' = groupResources g1 \<union> newSlabResources (nextId st1) (nextId st')"
    unfolding groupResources_def ms(1) using f(1) by simp
  show "meshIds g' = meshIds g1 @ [nextId st1..<nextId st']"
    unfolding meshIds_def ms(1) using f(2) by simp
  show "wfGroup g1 \<Longrightarrow> wfGroup g'"
    unfolding wfGroup_def ms(1) using f(3) by auto
  show "live st' = live st1 \<union> newSlabResources (nextId st1) (nextId st')"
    using placed_live[OF assms] unfolding newSlabResources_def by simp
  show "nextId st1 \<le> nextId st'" using placed_le[OF assms] by simp
qed

section \<open>Recycling keeps the resource accounting\<close>

lemma sceneResources_append:
  "sceneResources (A @ g # B) = sceneResources A \<union> groupResources g \<union> sceneResources B"
  unfolding sceneResources_def by auto

lemma wfPool_split:
  "wfPool (A @ g # B) n lv \<longleftrightarrow>
     list_all wfGroup A \<and> wfGroup g \<and> list_all wfGroup B
     \<and> distinct (concat (map meshIds A) @ meshIds g @ concat (map meshIds B))
     \<and> list_all (\<lambda>k. k < n) (concat (map meshIds A))
     \<and> list_all (\<lambda>k. k < n) (meshIds g)
     \<and> list_all (\<lambda>k. k < n) (concat (map meshIds B))
     \<and> lv = sceneResources A \<union> groupResources g \<union> sceneResources B"
  unfolding wfPool_def sceneResources_append by auto

lemma replace_group_wf:
  assumes wf: "wfPool (A @ g # B) n lv"
    and p: "placed (g1, st1) (g', st')"
    and g1: "children g1 = filter (\<lambda>c. \<not> isSlab c) (children g)"
    and lv1: "live st1 = lv - \<Union> (set (map slabResources (filter isSlab (children g))))"
    and n1: "nextId st1 = n"
  shows "wfPool (A @ g' # B) (nextId st') (live st')"
proof -
  let ?Lg = "\<Union> (set (map childResources (filter (\<lambda>c. \<not> isSlab c) (children g))))"
  let ?Sg = "\<Union> (set (map slabResources (filter isSlab (children g))))"
  let ?N = "newSlabResources n (nextId st')"
  let ?RA = "sceneResources A" and ?RB = "sceneResources B"
  let ?iA = "concat (map meshIds A)" and ?iB = "concat (map meshIds B)"
  have w: "list_all wfGroup A" "wfGroup g" "list_all wfGroup B"
    "distinct (?iA @ meshIds g @ ?iB)"
    "list_all (\<lambda>k. k < n) ?iA" "list_all (\<lambda>k. k < n) ?iB"
    "lv = ?RA \<union> groupResources g \<union> ?RB"
    using wf unfolding wfPool_split by simp_all
  note pr = placed_resources[OF p, unfolded n1]
  have wg1: "wfGroup g1"
    unfolding wfGroup_def g1 using wfChild_lines w(2)[unfolded wfGroup_def]
    by (auto simp: list_ex_iff)
  have ids1: "meshIds g1 = []" unfolding meshIds_def g1 by (rule meshIds_lines)
  have res1: "groupResources g1 = ?Lg" unfolding groupResources_def g1 ..
  have le: "n \<le> nextId st'" using pr(5) .
  have wg': "wfGroup g'" using pr(3)[OF wg1] .
  have ids': "meshIds g' = [n..<nextId st']" using pr(2) ids1 by simp
  have res': "groupResources g' = ?Lg \<union> ?N" using pr(1) res1 by simp
  have live': "live st' = (lv - ?Sg) \<union> ?N" using pr(4) lv1 by simp
  have gsplit: "groupResources g = ?Lg \<union> ?Sg" by (rule groupResources_split)
  have wcs: "list_all wfChild (children g)" using w(2) unfolding wfGroup_def by simp
  have SgId: "\<And>r. r \<in> ?Sg \<Longrightarrow> \<exists>k\<in>set (meshIds g). slabIdOf r = Some k"
    using slabs_have_id[OF wcs] unfolding meshIds_def by blast
  have dA: "set ?iA \<inter> set (meshIds g) = {}" and dB: "set ?iB \<inter> set (meshIds g) = {}"
    using w(4) by auto
  have SgA: "?Sg \<inter> ?RA = {}"
  proof (rule ccontr)
    assume "?Sg \<inter> ?RA \<noteq> {}"
    then obtain r where r: "r \<in> ?Sg" "r \<in> ?RA" by blast
    obtain k where k: "k \<in> set (meshIds g)" "slabIdOf r = Some k" using SgId[OF r(1)] by blast
    from sceneResources_ids[OF w(1) r(2)] k(2) have "k \<in> set ?iA" by auto
    then show False using k(1) dA by blast
  qed
  have SgB: "?Sg \<inter> ?RB = {}"
  proof (rule ccontr)
    assume "?Sg \<inter> ?RB \<noteq> {}"
    then obtain r where r: "r \<in> ?Sg" "r \<in> ?RB" by blast
    obtain k where k: "k \<in> set (meshIds g)" "slabIdOf r = Some k" using SgId[OF r(1)] by blast
    from sceneResources_ids[OF w(3) r(2)] k(2) have "k \<in> set ?iB" by auto
    then show False using k(1) dB by blast
  qed
  have SgL: "?Sg \<inter> ?Lg = {}"
  proof (rule ccontr)
    assume "?Sg \<inter> ?Lg \<noteq> {}"
    then obtain r where r: "r \<in> ?Sg" "r \<in> ?Lg" by blast
    obtain k where k: "slabIdOf r = Some k" using SgId[OF r(1)] by blast
    then show False using lines_no_slab_id[OF r(2)] by simp
  qed
  have live_eq: "live st' = ?RA \<union> groupResources g' \<union> ?RB"
    unfolding live' res' w(7) gsplit using SgA SgB SgL by blast
  have dist: "distinct (?iA @ meshIds g' @ ?iB)"
  proof -
    have "distinct ?iA" "distinct ?iB" "set ?iA \<inter> set ?iB = {}" using w(4) by auto
    moreover have "set ?iA \<inter> set [n..<nextId st'] = {}" "set ?iB \<inter> set [n..<nextId st'] = {}"
      using w(5) w(6) by (force simp: list_all_iff)+
    ultimately show ?thesis unfolding ids' by auto
  qed
  have bA: "list_all (\<lambda>k. k < nextId st') ?iA" and bB: "list_all (\<lambda>k. k < nextId st') ?iB"
    using w(5) w(6) le by (force simp: list_all_iff)+
  have bg: "list_all (\<lambda>k. k < nextId st') (meshIds g')"
    unfolding ids' by (simp add: list_all_iff)
  show ?thesis
    unfolding wfPool_split using w(1) wg' w(3) dist bA bg bB live_eq by simp
qed

lemma repopulate_wf:
  assumes wf: "wfPool segs (nextId st) (live st)" and i: "i < length segs"
    and ch: "children gz = children (segs ! i)"
  shows "wfPool (segs[i := fst (repopulate rnd (gz, st))])
           (nextId (snd (repopulate rnd (gz, st)))) (live (snd (repopulate rnd (gz, st))))"
proof -
  let ?A = "take i segs" and ?B = "drop (Suc i) segs" and ?g = "segs ! i"
  have s: "segs = ?A @ ?g # ?B" using i by (simp add: id_take_nth_drop)
  have u: "segs[i := fst (repopulate rnd (gz, st))] = ?A @ fst (repopulate rnd (gz, st)) # ?B"
    using i by (simp add: upd_conv_take_nth_drop)
  have wf': "wfPool (?A @ ?g # ?B) (nextId st) (live st)" using wf s by simp
  have wg: "list_all wfChild (children ?g)"
    using wf' unfolding wfPool_split wfGroup_def by simp
  have p: "placed (fst (releaseSlabs (gz, st)), snd (releaseSlabs (gz, st)))
             (fst (repopulate rnd (gz, st)), snd (repopulate rnd (gz, st)))"
    using repopulate_placed[where rnd=rnd and gs="(gz, st)"] by simp
  have g1: "children (fst (releaseSlabs (gz, st))) = filter (\<lambda>c. \<not> isSlab c) (children ?g)"
    unfolding releaseSlabs_eq ch using filter_not_named[OF wg] by simp
  have lv1: "live (snd (releaseSlabs (gz, st)))
      = live st - \<Union> (set (map slabResources (filter isSlab (children ?g))))"
    unfolding releaseSlabs_eq ch using filter_named[OF wg] by simp
  have n1: "nextId (snd (releaseSlabs (gz, st))) = nextId st"
    by (rule releaseSlabs_frame(3))
  show ?thesis unfolding u by (rule replace_group_wf[OF wf' p g1 lv1 n1])
qed

lemma forwardRecycle_wf:
  assumes "wfState st" "i < length (segmentsRef st)"
  shows "wfState (forwardRecycle rnd camZ i st)"
proof (cases "real_of_int (posz (segmentsRef st ! i)) > camZ + real_of_int SEGMENT_DEPTH")
  case False
  then show ?thesis using assms(1) unfolding forwardRecycle_def Let_def by simp
next
  case True
  let ?gz = "(segmentsRef st ! i)\<lparr>posz := minZ (segmentsRef st) - SEGMENT_DEPTH\<rparr>"
  let ?r = "repopulate rnd (?gz, st)"
  have e: "forwardRecycle rnd camZ i st = (snd ?r)\<lparr>segmentsRef := (segmentsRef (snd ?r))[i := fst ?r]\<rparr>"
    using True unfolding forwardRecycle_def Let_def by (simp split: prod.splits)
  have s: "segmentsRef (snd ?r) = segmentsRef st" by (rule repopulate_frame(2))
  have "wfPool ((segmentsRef st)[i := fst ?r]) (nextId (snd ?r)) (live (snd ?r))"
    using repopulate_wf[where gz="?gz" and rnd=rnd, OF assms(1)[unfolded wfState_def] assms(2)] by simp
  then show ?thesis unfolding e wfState_def s by simp
qed

lemma backwardRecycle_wf:
  assumes "wfState st" "i < length (segmentsRef st)"
  shows "wfState (backwardRecycle rnd camZ i st)"
proof (cases "real_of_int (posz (segmentsRef st ! i))
              < camZ - real_of_int (int NUM_SEGMENTS * SEGMENT_DEPTH) - real_of_int SEGMENT_DEPTH")
  case False
  then show ?thesis using assms(1) unfolding backwardRecycle_def Let_def by simp
next
  case True
  let ?gz = "(segmentsRef st ! i)\<lparr>posz := maxZ (segmentsRef st) + SEGMENT_DEPTH\<rparr>"
  let ?r = "repopulate rnd (?gz, st)"
  have e: "backwardRecycle rnd camZ i st = (snd ?r)\<lparr>segmentsRef := (segmentsRef (snd ?r))[i := fst ?r]\<rparr>"
    using True unfolding backwardRecycle_def Let_def by (simp split: prod.splits)
  have s: "segmentsRef (snd ?r) = segmentsRef st" by (rule repopulate_frame(2))
  have "wfPool ((segmentsRef st)[i := fst ?r]) (nextId (snd ?r)) (live (snd ?r))"
    using repopulate_wf[where gz="?gz" and rnd=rnd, OF assms(1)[unfolded wfState_def] assms(2)] by simp
  then show ?thesis unfolding e wfState_def s by simp
qed

section \<open>The mounted pool and its frames keep the resource accounting\<close>

lemma forwardRecycle_length:
  "length (segmentsRef (forwardRecycle rnd camZ i st)) = length (segmentsRef st)"
proof (cases "real_of_int (posz (segmentsRef st ! i)) > camZ + real_of_int SEGMENT_DEPTH")
  case False
  then show ?thesis unfolding forwardRecycle_def Let_def by simp
next
  case True
  let ?r = "repopulate rnd ((segmentsRef st ! i)\<lparr>posz := minZ (segmentsRef st) - SEGMENT_DEPTH\<rparr>, st)"
  have e: "forwardRecycle rnd camZ i st = (snd ?r)\<lparr>segmentsRef := (segmentsRef (snd ?r))[i := fst ?r]\<rparr>"
    using True unfolding forwardRecycle_def Let_def by (simp split: prod.splits)
  show ?thesis unfolding e by (simp add: repopulate_frame(2))
qed

lemma backwardRecycle_length:
  "length (segmentsRef (backwardRecycle rnd camZ i st)) = length (segmentsRef st)"
proof (cases "real_of_int (posz (segmentsRef st ! i))
              < camZ - real_of_int (int NUM_SEGMENTS * SEGMENT_DEPTH) - real_of_int SEGMENT_DEPTH")
  case False
  then show ?thesis unfolding backwardRecycle_def Let_def by simp
next
  case True
  let ?r = "repopulate rnd ((segmentsRef st ! i)\<lparr>posz := maxZ (segmentsRef st) + SEGMENT_DEPTH\<rparr>, st)"
  have e: "backwardRecycle rnd camZ i st = (snd ?r)\<lparr>segmentsRef := (segmentsRef (snd ?r))[i := fst ?r]\<rparr>"
    using True unfolding backwardRecycle_def Let_def by (simp split: prod.splits)
  show ?thesis unfolding e by (simp add: repopulate_frame(2))
qed

lemma recycleSegment_wf:
  assumes "wfState st" "i < length (segmentsRef st)"
  shows "wfState (recycleSegment rnd camZ st i)"
    "length (segmentsRef (recycleSegment rnd camZ st i)) = length (segmentsRef st)"
proof -
  have f: "wfState (forwardRecycle rnd camZ i st)" by (rule forwardRecycle_wf[OF assms])
  have l: "i < length (segmentsRef (forwardRecycle rnd camZ i st))"
    using assms(2) by (simp add: forwardRecycle_length)
  show "wfState (recycleSegment rnd camZ st i)"
    unfolding recycleSegment_def by (rule backwardRecycle_wf[OF f l])
  show "length (segmentsRef (recycleSegment rnd camZ st i)) = length (segmentsRef st)"
    unfolding recycleSegment_def by (simp add: forwardRecycle_length backwardRecycle_length)
qed

lemma fold_recycleSegment_wf:
  "wfState st \<Longrightarrow> list_all (\<lambda>i. i < length (segmentsRef st)) xs \<Longrightarrow>
     wfState (foldl (recycleSegment rnd camZ) st xs)
     \<and> length (segmentsRef (foldl (recycleSegment rnd camZ) st xs)) = length (segmentsRef st)"
proof (induction xs arbitrary: st)
  case Nil
  then show ?case by simp
next
  case (Cons x xs)
  have x: "x < length (segmentsRef st)" using Cons.prems(2) by simp
  note r = recycleSegment_wf[OF Cons.prems(1) x, where rnd=rnd and camZ=camZ]
  have "list_all (\<lambda>i. i < length (segmentsRef (recycleSegment rnd camZ st x))) xs"
    using Cons.prems(2) r(2) by simp
  from Cons.IH[OF r(1) this] show ?case using r(2) by simp
qed

lemma recyclePass_wf:
  assumes "wfState st"
  shows "wfState (recyclePass rnd camZ st)"
    "length (segmentsRef (recyclePass rnd camZ st)) = length (segmentsRef st)"
proof -
  have "list_all (\<lambda>i. i < length (segmentsRef st)) [0..<length (segmentsRef st)]"
    by (simp add: list_all_iff)
  from fold_recycleSegment_wf[OF assms this, where rnd=rnd and camZ=camZ]
  show "wfState (recyclePass rnd camZ st)"
    "length (segmentsRef (recyclePass rnd camZ st)) = length (segmentsRef st)"
    unfolding recyclePass_def by simp_all
qed

lemma animate_wf:
  assumes "wfState st"
  shows "wfState (animate rnd st)"
    "length (segmentsRef (animate rnd st)) = length (segmentsRef st)"
proof -
  have a: "wfState (st\<lparr>frameRequested := True\<rparr>)" using assms unfolding wfState_def by simp
  have b: "\<And>z. wfState (st\<lparr>frameRequested := True, cameraRef := Some z\<rparr>)"
    using assms unfolding wfState_def by simp
  show "wfState (animate rnd st)"
    unfolding animate_def Let_def using a recyclePass_wf(1)[OF b]
    by (auto split: option.splits)
  show "length (segmentsRef (animate rnd st)) = length (segmentsRef st)"
    unfolding animate_def Let_def using recyclePass_wf(2)[OF b]
    by (auto split: option.splits)
qed

lemma createSegment_wf:
  assumes "wfPool segs (nextId st) (live st)"
  shows "wfPool (segs @ [fst (createSegment rnd z st)])
           (nextId (snd (createSegment rnd z st))) (live (snd (createSegment rnd z st)))"
proof -
  let ?lines = "\<lparr>lineId = nextId st, vertices = segmentVertices, lineColor = 0xb0b0b0,
                    transparent = True, lineOpacity = 0.5, needsUpdate = False\<rparr>"
  let ?g = "\<lparr>posz = z, children = [LineSegmentsObj ?lines]\<rparr>"
  let ?s = "st\<lparr>nextId := Suc (nextId st), live := live st \<union> {LineGeometry (nextId st), LineMaterial (nextId st)}\<rparr>"
  have c: "createSegment rnd z st
             = populateImages rnd (TUNNEL_WIDTH / 2) (TUNNEL_HEIGHT / 2) (real_of_int SEGMENT_DEPTH) (?g, ?s)"
    unfolding createSegment_def Let_def ..
  have p: "placed (?g, ?s) (fst (createSegment rnd z st), snd (createSegment rnd z st))"
    unfolding c using placed_populateImages[where gs="(?g, ?s)"] by simp
  have w: "wfPool (segs @ ?g # []) (Suc (nextId st)) (live ?s)"
    using assms unfolding wfPool_split
    by (fastforce simp: wfPool_def wfGroup_def meshIds_def groupResources_def sceneResources_def
          list_all_iff intro: less_SucI)
  have g1: "children ?g = filter (\<lambda>c. \<not> isSlab c) (children ?g)" by simp
  have lv1: "live ?s = live ?s - \<Union> (set (map slabResources (filter isSlab (children ?g))))" by simp
  have n1: "nextId ?s = Suc (nextId st)" by simp
  show ?thesis using replace_group_wf[OF w p g1 lv1 n1] by simp
qed

lemma pushSegment_wf:
  assumes "wfPool segs (nextId st) (live st)"
  shows "wfPool (fst (pushSegment rnd (segs, st) i))
           (nextId (snd (pushSegment rnd (segs, st) i))) (live (snd (pushSegment rnd (segs, st) i)))"
  unfolding pushSegment_def
  using createSegment_wf[OF assms, where rnd=rnd and z="- int i * SEGMENT_DEPTH"]
  by (auto split: prod.splits)

lemma fold_pushSegment_wf:
  "wfPool segs (nextId st) (live st) \<Longrightarrow>
   wfPool (fst (foldl (pushSegment rnd) (segs, st) xs))
     (nextId (snd (foldl (pushSegment rnd) (segs, st) xs)))
     (live (snd (foldl (pushSegment rnd) (segs, st) xs)))"
proof (induction xs arbitrary: segs st)
  case Nil
  then show ?case by simp
next
  case (Cons x xs)
  obtain segs' s' where c: "pushSegment rnd (segs, st) x = (segs', s')"
    by (cases "pushSegment rnd (segs, st) x")
  have "wfPool segs' (nextId s') (live s')"
    using pushSegment_wf[OF Cons.prems, where rnd=rnd and i=x] unfolding c by simp
  from Cons.IH[OF this] show ?case by (simp add: c)
qed

lemma generateSegments_wf:
  assumes "live st = {}"
  shows "wfState (generateSegments rnd st)"
proof -
  have "wfPool [] (nextId st) (live st)"
    using assms by (simp add: wfPool_def sceneResources_def)
  from fold_pushSegment_wf[OF this, where rnd=rnd and xs="[0..<NUM_SEGMENTS]"]
  show ?thesis unfolding generateSegments_def wfState_def
    by (cases "foldl (pushSegment rnd) ([], st) [0..<NUM_SEGMENTS]") simp
qed

lemma mountEffect_wf:
  "wfState (mountEffect rnd True unmounted)"
  "length (segmentsRef (mountEffect rnd True unmounted)) = NUM_SEGMENTS"
proof -
  let ?s1 = "unmounted\<lparr>sceneRef := Some \<lparr>background = None, fog = None\<rparr>,
                          cameraRef := Some 0, rendererRef := Some ()\<rparr>"
  have g: "wfState (generateSegments rnd ?s1)"
    by (rule generateSegments_wf) (simp add: unmounted_def)
  have l: "length (segmentsRef (generateSegments rnd ?s1)) = NUM_SEGMENTS"
    using arg_cong[OF generateSegments_frame(2)[where rnd=rnd and st="?s1"], of length] by simp
  note a = animate_wf[OF g, where rnd=rnd]
  show "wfState (mountEffect rnd True unmounted)"
    unfolding mountEffect_def Let_def using a(1) by (simp add: wfState_def)
  show "length (segmentsRef (mountEffect rnd True unmounted)) = NUM_SEGMENTS"
    unfolding mountEffect_def Let_def using a(2) l by simp
qed

section \<open>Image loads and theme changes keep the resource accounting\<close>

lemma setMap_facts:
  "childIds (setMap n c) = childIds c"
  "isSlab (setMap n c) = isSlab c"
  "wfChild c \<Longrightarrow> wfChild (setMap n c)"
  "wfChild c \<Longrightarrow> childResources (setMap n c)
      = childResources c \<union> (if n \<in> set (childIds c) then {SlabTexture n} else {})"
  by (cases c; auto simp: setMap_def)+

lemma setMap_group:
  assumes "wfGroup g"
  shows "wfGroup (g\<lparr>children := map (setMap n) (children g)\<rparr>)"
    "meshIds (g\<lparr>children := map (setMap n) (children g)\<rparr>) = meshIds g"
    "groupResources (g\<lparr>children := map (setMap n) (children g)\<rparr>)
       = groupResources g \<union> (if n \<in> set (meshIds g) then {SlabTexture n} else {})"
proof -
  have w: "list_all wfChild (children g)" "list_ex (\<lambda>c. \<not> isSlab c) (children g)"
    using assms unfolding wfGroup_def by simp_all
  show "wfGroup (g\<lparr>children := map (setMap n) (children g)\<rparr>)"
    unfolding wfGroup_def using w
    by (auto simp: list_all_iff list_ex_iff setMap_facts)
  show "meshIds (g\<lparr>children := map (setMap n) (children g)\<rparr>) = meshIds g"
    unfolding meshIds_def by (simp add: comp_def setMap_facts(1))
  have "\<Union> (set (map childResources (map (setMap n) cs)))
       = \<Union> (set (map childResources cs))
          \<union> (if n \<in> set (concat (map childIds cs)) then {SlabTexture n} else {})"
    if "list_all wfChild cs" for cs
    using that by (induction cs) (auto simp: setMap_facts(4))
  from this[OF w(1)]
  show "groupResources (g\<lparr>children := map (setMap n) (children g)\<rparr>)
       = groupResources g \<union> (if n \<in> set (meshIds g) then {SlabTexture n} else {})"
    unfolding groupResources_def meshIds_def by simp
qed

lemma setMap_pool:
  assumes "list_all wfGroup segs"
  shows "list_all wfGroup (map (\<lambda>g. g\<lparr>children := map (setMap n) (children g)\<rparr>) segs)"
    "concat (map meshIds (map (\<lambda>g. g\<lparr>children := map (setMap n) (children g)\<rparr>) segs))
       = concat (map meshIds segs)"
    "sceneResources (map (\<lambda>g. g\<lparr>children := map (setMap n) (children g)\<rparr>) segs)
       = sceneResources segs
          \<union> (if n \<in> set (concat (map meshIds segs)) then {SlabTexture n} else {})"
  using assms
proof (induction segs)
  case Nil
  { case 1 show ?case by simp }
  { case 2 show ?case by simp }
  { case 3 show ?case by (simp add: sceneResources_def) }
next
  case (Cons g segs)
  { case 1 then show ?case using Cons.IH(1) setMap_group(1) by simp }
  { case 2 then show ?case using Cons.IH(2) setMap_group(2) by simp }
  { case 3
    then have w: "wfGroup g" "list_all wfGroup segs" by simp_all
    have s: "\<And>x xs. sceneResources (x # xs) = groupResources x \<union> sceneResources xs"
      unfolding sceneResources_def by simp
    show ?case
      unfolding list.map s Cons.IH(3)[OF w(2)] setMap_group(3)[OF w(1)]
      by auto }
qed

lemma textureLoaded_wf:
  assumes "wfState st"
  shows "wfState (textureLoaded n st)"
    "length (segmentsRef (textureLoaded n st)) = length (segmentsRef st)"
proof -
  have w: "list_all wfGroup (segmentsRef st)" "distinct (concat (map meshIds (segmentsRef st)))"
    "list_all (\<lambda>k. k < nextId st) (concat (map meshIds (segmentsRef st)))"
    "live st = sceneResources (segmentsRef st)"
    using assms unfolding wfState_def wfPool_def by simp_all
  note p = setMap_pool[OF w(1), where n=n]
  show "wfState (textureLoaded n st)"
  proof (cases "n \<in> set (concat (map meshIds (segmentsRef st)))")
    case True
    then show ?thesis
      unfolding textureLoaded_def wfState_def wfPool_def
      using w p by simp
  next
    case False
    then show ?thesis
      unfolding textureLoaded_def using assms by (simp add: wfState_def)
  qed
  show "length (segmentsRef (textureLoaded n st)) = length (segmentsRef st)"
    unfolding textureLoaded_def by simp
qed

lemma themeLine_facts:
  "childIds (themeLine c p x) = childIds x"
  "wfChild (themeLine c p x) = wfChild x"
  "childResources (themeLine c p x) = childResources x"
  by (cases x; simp add: themeLine_def)+

lemma themed_group:
  "wfGroup (g\<lparr>children := map (themeLine c p) (children g)\<rparr>) = wfGroup g"
  "meshIds (g\<lparr>children := map (themeLine c p) (children g)\<rparr>) = meshIds g"
  "groupResources (g\<lparr>children := map (themeLine c p) (children g)\<rparr>) = groupResources g"
  unfolding wfGroup_def meshIds_def groupResources_def
  by (simp_all add: list_all_iff list_ex_iff themeLine_facts themeLine_isSlab comp_def)

lemma themeEffect_wf:
  assumes "wfState st"
  shows "wfState (themeEffect flag st)"
    "length (segmentsRef (themeEffect flag st)) = length (segmentsRef st)"
proof -
  have "wfPool (map (\<lambda>segment. segment\<lparr>children := map (themeLine c p) (children segment)\<rparr>) segs) k lv
          = wfPool segs k lv" for c p segs k lv
    unfolding wfPool_def sceneResources_def
    by (simp add: comp_def themed_group list_all_iff)
  then show "wfState (themeEffect flag st)"
    using assms unfolding themeEffect_def Let_def wfState_def
    by (simp split: option.splits)
  show "length (segmentsRef (themeEffect flag st)) = length (segmentsRef st)"
    unfolding themeEffect_def Let_def by (simp split: option.splits)
qed

lemma frame_wf:
  assumes "wfState st"
  shows "wfState (frame rnd st y)"
    "length (segmentsRef (frame rnd st y)) = length (segmentsRef st)"
proof -
  have o: "wfState (onScroll y st)" using assms unfolding wfState_def onScroll_def by simp
  show "wfState (frame rnd st y)" unfolding frame_def by (rule animate_wf(1)[OF o])
  show "length (segmentsRef (frame rnd st y)) = length (segmentsRef st)"
    unfolding frame_def using animate_wf(2)[OF o] by (simp add: onScroll_def)
qed

lemma step_wf:
  assumes "wfState st"
  shows "wfState (step rnd st ev)"
    "length (segmentsRef (step rnd st ev)) = length (segmentsRef st)"
  using frame_wf[OF assms] textureLoaded_wf[OF assms] themeEffect_wf[OF assms]
  by (cases ev; simp)+

lemma fold_step_wf:
  "wfState st \<Longrightarrow> wfState (foldl (step rnd) st evs)
     \<and> length (segmentsRef (foldl (step rnd) st evs)) = length (segmentsRef st)"
proof (induction evs arbitrary: st)
  case Nil
  then show ?case by simp
next
  case (Cons ev evs)
  from Cons.IH[OF step_wf(1)[OF Cons.prems]] step_wf(2)[OF Cons.prems]
  show ?case by simp
qed

lemma run_wf:
  "wfState (run rnd evs)" "length (segmentsRef (run rnd evs)) = NUM_SEGMENTS"
  unfolding run_def using fold_step_wf[OF mountEffect_wf(1)] mountEffect_wf(2) by simp_all

section \<open>No slab leaks; what the clean-up leaves\<close>





text \<open>
  Claim C4, on the code. The clean-up of the mount effect removes the two listeners,
  cancels the frame and disposes the renderer, and nothing else: after any run of the
  mounted component, all 14 segments are still there, and every resource of every
  object in them is still live, among them the line geometry and the line material of
  each segment.
\<close>

theorem teardown_disposes_no_segment_resource:
  "live (teardown (run rnd evs)) = sceneResources (segmentsRef (teardown (run rnd evs)))
   \<and> length (segmentsRef (teardown (run rnd evs))) = NUM_SEGMENTS
   \<and> list_all (\<lambda>g. list_ex (\<lambda>c. \<exists>l. c = LineSegmentsObj l
                      \<and> LineGeometry (lineId l) \<in> live (teardown (run rnd evs))
                      \<and> LineMaterial (lineId l) \<in> live (teardown (run rnd evs))) (children g))
        (segmentsRef (teardown (run rnd evs)))
   \<and> \<not> scrollListener (teardown (run rnd evs)) \<and> \<not> resizeListener (teardown (run rnd evs))
   \<and> \<not> frameRequested (teardown (run rnd evs)) \<and> rendererDisposed (teardown (run rnd evs))"
proof -
  let ?s = "run rnd evs"
  have t: "live (teardown ?s) = live ?s" "segmentsRef (teardown ?s) = segmentsRef ?s"
    by (simp_all add: teardown_def)
  have w: "list_all wfGroup (segmentsRef ?s)" "live ?s = sceneResources (segmentsRef ?s)"
    using run_wf(1)[of rnd evs] unfolding wfState_def wfPool_def by simp_all
  have "list_ex (\<lambda>c. \<exists>l. c = LineSegmentsObj l
                      \<and> LineGeometry (lineId l) \<in> live ?s
                      \<and> LineMaterial (lineId l) \<in> live ?s) (children g)"
    if g: "g \<in> set (segmentsRef ?s)" for g
  proof -
    have "wfGroup g" using w(1) g by (simp add: list_all_iff)
    then obtain c where c: "c \<in> set (children g)" "\<not> isSlab c"
      unfolding wfGroup_def by (auto simp: list_ex_iff)
    obtain l where l: "c = LineSegmentsObj l" using c(2) by (cases c) simp_all
    have "childResources c \<subseteq> sceneResources (segmentsRef ?s)"
      using c(1) g unfolding sceneResources_def groupResources_def by auto
    then have "LineGeometry (lineId l) \<in> live ?s" "LineMaterial (lineId l) \<in> live ?s"
      unfolding w(2) l by simp_all
    then show ?thesis using c(1) l by (auto simp: list_ex_iff)
  qed
  then have 3: "list_all (\<lambda>g. list_ex (\<lambda>c. \<exists>l. c = LineSegmentsObj l
                      \<and> LineGeometry (lineId l) \<in> live ?s
                      \<and> LineMaterial (lineId l) \<in> live ?s) (children g)) (segmentsRef ?s)"
    by (simp add: list_all_iff)
  show ?thesis
    unfolding t using w(2) 3 run_wf(2)[of rnd evs] by (simp add: teardown_def)
qed

section \<open>The recycling pass on the depth positions\<close>

lemma foldl_min_Min: "foldl min (s::int) zs = Min (insert s (set zs))"
proof -
  have "foldl min s zs = fold min zs s"
    by (simp add: foldl_conv_fold min.commute)
  also have "\<dots> = Min (set (s # zs))" by (rule Min.set_eq_fold[symmetric])
  finally show ?thesis by simp
qed

lemma foldl_min_least:
  assumes "\<exists>z\<in>set zs. z \<le> (s::int)"
  shows "foldl min s zs \<in> set zs" "\<forall>z\<in>set zs. foldl min s zs \<le> z"
proof -
  let ?m = "Min (insert s (set zs))"
  have le: "\<forall>z\<in>insert s (set zs). ?m \<le> z" by simp
  have "?m \<in> insert s (set zs)" by (rule Min_in) simp_all
  moreover obtain z0 where z0: "z0 \<in> set zs" "z0 \<le> s" using assms by blast
  ultimately have "?m \<in> set zs"
  proof (cases "?m = s")
    case True
    have "?m \<le> z0" using le z0(1) by blast
    then have "z0 = s" using z0(2) True by simp
    then show ?thesis using True z0(1) by simp
  next
    case False
    then show ?thesis using \<open>?m \<in> insert s (set zs)\<close> by blast
  qed
  then show "foldl min s zs \<in> set zs" unfolding foldl_min_Min .
  show "\<forall>z\<in>set zs. foldl min s zs \<le> z" unfolding foldl_min_Min using le by blast
qed

lemma run6_Suc_low: "insert (lo - 6) (run6 lo m) = run6 (lo - 6) (Suc m)"
proof -
  have "run6 (lo - 6) (Suc m) = (\<lambda>t. lo - 6 + 6 * int t) ` insert 0 (Suc ` {..<m})"
    unfolding run6_def by (simp only: lessThan_Suc_eq_insert_0)
  also have "\<dots> = insert (lo - 6) ((\<lambda>t. lo + 6 * int t) ` {..<m})"
    by (simp add: image_image algebra_simps)
  finally show ?thesis unfolding run6_def by simp
qed

lemma run6_one: "run6 v (Suc 0) = {v}"
  unfolding run6_def by (simp add: lessThan_Suc)

lemma run6_bounds: "d \<in> run6 lo m \<Longrightarrow> lo \<le> d \<and> d + 6 \<le> lo + 6 * int m"
  unfolding run6_def by auto

lemma run6_low: "0 < m \<Longrightarrow> lo \<in> run6 lo m"
  unfolding run6_def by force

lemma card_run6: "card (run6 lo m) = m"
proof -
  have "inj_on (\<lambda>t. lo + 6 * int t) {..<m}" by (rule inj_onI) simp
  then show ?thesis unfolding run6_def by (simp add: card_image)
qed

lemma pend_skip:
  assumes "zs ! k \<le> f"
  shows "pend f (Suc k) zs = pend f k zs"
proof -
  have "\<And>j. k \<le> j \<and> f < zs ! j \<longleftrightarrow> Suc k \<le> j \<and> f < zs ! j"
    using assms by (metis Suc_leI le_neq_implies_less not_le Suc_leD)
  then show ?thesis unfolding pend_def by auto
qed

lemma pend_update:
  assumes "distinct zs" "k < length zs" "f < zs ! k"
  shows "pend f (Suc k) (zs[k := v]) = pend f k zs - {zs ! k}"
proof (rule set_eqI)
  fix z
  show "z \<in> pend f (Suc k) (zs[k := v]) \<longleftrightarrow> z \<in> pend f k zs - {zs ! k}"
  proof
    assume "z \<in> pend f (Suc k) (zs[k := v])"
    then obtain j where j: "Suc k \<le> j" "j < length zs" "zs[k := v] ! j = z" "f < z"
      unfolding pend_def by auto
    have jk: "j \<noteq> k" using j(1) by simp
    then have e: "zs ! j = z" using j(3) by simp
    have "zs ! j \<noteq> zs ! k" using assms(1,2) j(2) jk by (simp add: nth_eq_iff_index_eq)
    moreover have "k \<le> j" using j(1) by simp
    ultimately show "z \<in> pend f k zs - {zs ! k}"
      unfolding pend_def using j(2,4) e by blast
  next
    assume "z \<in> pend f k zs - {zs ! k}"
    then obtain j where j: "k \<le> j" "j < length zs" "zs ! j = z" "f < z" and ne: "z \<noteq> zs ! k"
      unfolding pend_def by auto
    have jk: "j \<noteq> k" using j(3) ne by auto
    then have "Suc k \<le> j" using j(1) by simp
    moreover have "zs[k := v] ! j = z" using jk j(3) by simp
    ultimately show "z \<in> pend f (Suc k) (zs[k := v])"
      unfolding pend_def using j by auto
  qed
qed

lemma pend_current: "k < length zs \<Longrightarrow> f < zs ! k \<Longrightarrow> zs ! k \<in> pend f k zs"
  unfolding pend_def by auto

lemma pend_subset: "pend f k zs \<subseteq> set zs"
  unfolding pend_def by auto

lemma pend_above: "p \<in> pend f k zs \<Longrightarrow> f < p"
  unfolding pend_def by auto

lemma fwd_step_skip:
  assumes inv: "fwdInv s f b k zs" and k: "k < length zs" and nf: "\<not> f < zs ! k"
  shows "fwdInv s f b (Suc k) (fwdZ s f k zs)"
    "bwdZ s' b k (fwdZ s f k zs) = fwdZ s f k zs"
proof -
  have e: "fwdZ s f k zs = zs" using nf unfolding fwdZ_def by simp
  have p: "pend f (Suc k) zs = pend f k zs" using nf by (intro pend_skip) simp
  show "fwdInv s f b (Suc k) (fwdZ s f k zs)"
    using inv unfolding e fwdInv_def p .
  have "b \<le> zs ! k" using inv k unfolding fwdInv_def by (meson nth_mem)
  then show "bwdZ s' b k (fwdZ s f k zs) = fwdZ s f k zs"
    unfolding e bwdZ_def by simp
qed

lemma fwd_step_move:
  assumes inv: "fwdInv s f b k zs" and k: "k < length zs" and mv: "f < zs ! k"
    and par: "b + 6 * int (length zs) \<le> f + 1"
  shows "fwdInv s f b (Suc k) (fwdZ s f k zs)"
    "bwdZ s' b k (fwdZ s f k zs) = fwdZ s f k zs"
proof -
  obtain lo m where d: "distinct zs" and ex: "\<exists>z\<in>set zs. z \<le> s"
    and bd: "\<forall>z\<in>set zs. b \<le> z \<and> 6 dvd z"
    and D: "set zs - pend f k zs = run6 lo m"
    and nx: "0 < m \<longrightarrow> f < lo + 6 * int m"
    and ab: "\<forall>p\<in>pend f k zs. \<forall>d\<in>run6 lo m. d < p"
    using inv unfolding fwdInv_def by blast
  let ?mu = "foldl min s zs"
  let ?v = "?mu - 6"
  let ?z = "zs ! k"
  let ?zs = "zs[k := ?v]"
  have e: "fwdZ s f k zs = ?zs" using mv unfolding fwdZ_def by simp
  have mu: "?mu \<in> set zs" "\<forall>z\<in>set zs. ?mu \<le> z" using foldl_min_least[OF ex] by blast+
  have mus: "?mu \<le> s" using ex mu(2) by force
  have zp: "?z \<in> pend f k zs" using pend_current[OF k mv] .
  have zin: "?z \<in> set zs" using k by simp
  have vnot: "?v \<notin> set zs" using mu(2) by force
  have d': "distinct ?zs" using d vnot by (intro distinct_list_update) auto
  have set': "set ?zs = insert ?v (set zs - {?z})"
    using set_update_distinct[OF d k] by simp
  have pend': "pend f (Suc k) ?zs = pend f k zs - {?z}" by (rule pend_update[OF d k mv])
  have vp: "?v \<notin> pend f k zs" using vnot pend_subset by blast
  have Done': "set ?zs - pend f (Suc k) ?zs = insert ?v (run6 lo m)"
    unfolding set' pend' using D zp zin vp by blast
  have n1: "1 \<le> length zs" using k by simp
  have core: "b \<le> ?v \<and> (\<exists>lo' m'. insert ?v (run6 lo m) = run6 lo' m'
            \<and> (0 < m' \<longrightarrow> f < lo' + 6 * int m')
            \<and> (\<forall>p\<in>pend f k zs - {?z}. \<forall>d\<in>run6 lo' m'. d < p))"
  proof (cases "m = 0")
    case True
    then have "run6 lo m = {}" unfolding run6_def by simp
    then have "set zs \<subseteq> pend f k zs" using D by blast
    then have fm: "f < ?mu" using mu(1) pend_above by blast
    have bv: "b \<le> ?v" using fm par n1 by linarith
    have r: "insert ?v (run6 lo m) = run6 ?v (Suc 0)"
      using \<open>run6 lo m = {}\<close> by (simp add: run6_one)
    have a: "\<forall>p\<in>pend f k zs - {?z}. \<forall>d\<in>run6 ?v (Suc 0). d < p"
    proof (intro ballI)
      fix p d assume "p \<in> pend f k zs - {?z}" "d \<in> run6 ?v (Suc 0)"
      then have "p \<in> set zs" "d = ?v" using pend_subset by (auto simp: run6_one)
      then show "d < p" using mu(2) by force
    qed
    have "f < ?v + 6 * int (Suc 0)" using fm by simp
    then show ?thesis using bv r a by blast
  next
    case False
    then have mpos: "0 < m" by simp
    have loin: "lo \<in> run6 lo m" using run6_low[OF mpos] .
    then have lozs: "lo \<in> set zs" using D by blast
    have "?mu \<notin> pend f k zs"
    proof
      assume "?mu \<in> pend f k zs"
      then have "lo < ?mu" using ab loin by blast
      then show False using mu(2) lozs by force
    qed
    then have "?mu \<in> run6 lo m" using mu(1) D by blast
    then have "lo \<le> ?mu" using run6_bounds by blast
    moreover have "?mu \<le> lo" using mu(2) lozs by blast
    ultimately have mul: "?mu = lo" by simp
    have "run6 lo m \<subseteq> set zs - {?z}" using D zp by blast
    then have "card (run6 lo m) \<le> card (set zs - {?z})"
      by (intro card_mono) simp_all
    then have "m \<le> length zs - 1"
      using zin d by (simp add: card_run6 distinct_card)
    then have ml: "int m + 1 \<le> int (length zs)" using n1 by linarith
    have fl: "f < lo + 6 * int m" using nx mpos by simp
    have bv: "b \<le> ?v" unfolding mul using fl par ml by linarith
    have r: "insert ?v (run6 lo m) = run6 (lo - 6) (Suc m)"
      unfolding mul by (rule run6_Suc_low)
    have a: "\<forall>p\<in>pend f k zs - {?z}. \<forall>d\<in>run6 (lo - 6) (Suc m). d < p"
    proof (intro ballI)
      fix p d assume p: "p \<in> pend f k zs - {?z}" and dd: "d \<in> run6 (lo - 6) (Suc m)"
      have "d = lo - 6 \<or> d \<in> run6 lo m" using dd unfolding run6_Suc_low[symmetric] by blast
      moreover have "lo < p" using ab loin p by blast
      ultimately show "d < p" using ab p by force
    qed
    have "f < (lo - 6) + 6 * int (Suc m)" using fl by simp
    then show ?thesis using bv r a by blast
  qed
  have bv: "b \<le> ?v" using core by blast
  have dv: "6 dvd ?v" using bd mu(1) by (simp add: dvd_diff)
  have ex': "\<exists>z\<in>set ?zs. z \<le> s" unfolding set' using mus by force
  have bd': "\<forall>z\<in>set ?zs. b \<le> z \<and> 6 dvd z" unfolding set' using bd bv dv by blast
  obtain lo' m' where c': "insert ?v (run6 lo m) = run6 lo' m'"
      "0 < m' \<longrightarrow> f < lo' + 6 * int m'"
      "\<forall>p\<in>pend f k zs - {?z}. \<forall>d\<in>run6 lo' m'. d < p"
    using core by blast
  have last: "\<exists>lo m. set ?zs - pend f (Suc k) ?zs = run6 lo m
            \<and> (0 < m \<longrightarrow> f < lo + 6 * int m)
            \<and> (\<forall>p\<in>pend f (Suc k) ?zs. \<forall>d\<in>run6 lo m. d < p)"
    unfolding pend' Done'[unfolded pend']
    by (rule exI[of _ lo'], rule exI[of _ m']) (use c' in simp)
  show "fwdInv s f b (Suc k) (fwdZ s f k zs)"
    unfolding e fwdInv_def
    by (rule conjI[OF d' conjI[OF ex' conjI[OF bd' last]]])
  have "?zs ! k = ?v" using k by simp
  then show "bwdZ s' b k (fwdZ s f k zs) = fwdZ s f k zs"
    unfolding e bwdZ_def using bv by simp
qed

lemma fwd_step:
  assumes "fwdInv s f b k zs" "k < length zs" "b + 6 * int (length zs) \<le> f + 1"
  shows "fwdInv s f b (Suc k) (stepZ s f s' b zs k)"
    "stepZ s f s' b zs k = fwdZ s f k zs"
    "length (stepZ s f s' b zs k) = length zs"
proof -
  have a: "fwdInv s f b (Suc k) (fwdZ s f k zs) \<and> bwdZ s' b k (fwdZ s f k zs) = fwdZ s f k zs"
    using fwd_step_skip[OF assms(1,2)] fwd_step_move[OF assms(1,2) _ assms(3)]
    by (cases "f < zs ! k") blast+
  show "stepZ s f s' b zs k = fwdZ s f k zs" unfolding stepZ_def using a by simp
  then show "fwdInv s f b (Suc k) (stepZ s f s' b zs k)" using a by simp
  show "length (stepZ s f s' b zs k) = length zs"
    unfolding \<open>stepZ s f s' b zs k = fwdZ s f k zs\<close> fwdZ_def by simp
qed

lemma fwd_fold:
  "fwdInv s f b k zs \<Longrightarrow> k + d = length zs \<Longrightarrow> b + 6 * int (length zs) \<le> f + 1 \<Longrightarrow>
     fwdInv s f b (length zs) (foldl (stepZ s f s' b) zs [k..<length zs])
     \<and> length (foldl (stepZ s f s' b) zs [k..<length zs]) = length zs"
proof (induction d arbitrary: k zs)
  case 0
  then show ?case by simp
next
  case (Suc d)
  have k: "k < length zs" using Suc.prems(2) by simp
  note st = fwd_step[OF Suc.prems(1) k Suc.prems(3), where s'=s']
  let ?zs = "stepZ s f s' b zs k"
  have l: "length ?zs = length zs" using st(3) .
  have "fwdInv s f b (length ?zs) (foldl (stepZ s f s' b) ?zs [Suc k..<length ?zs])
     \<and> length (foldl (stepZ s f s' b) ?zs [Suc k..<length ?zs]) = length ?zs"
    using Suc.prems(2,3) by (intro Suc.IH[OF st(1)]) (simp_all add: l)
  then show ?case unfolding l using k by (simp add: upt_conv_Cons)
qed

lemma pend_all: "pend f 0 zs = {z \<in> set zs. f < z}"
  unfolding pend_def by (auto simp: in_set_conv_nth)

lemma pend_none: "pend f (length zs) zs = {}"
  unfolding pend_def by auto

lemma run6_below:
  assumes "t0 < n" "f < lo + 6 * int t0"
  shows "\<exists>m. m \<le> t0 \<and> {z \<in> run6 lo n. z \<le> f} = run6 lo m \<and> (0 < m \<longrightarrow> f < lo + 6 * int m)"
  using assms
proof (induction t0)
  case 0
  have "{z \<in> run6 lo n. z \<le> f} = run6 lo 0"
    using 0 unfolding run6_def by auto
  then show ?case by blast
next
  case (Suc t)
  show ?case
  proof (cases "f < lo + 6 * int t")
    case True
    then obtain m where "m \<le> t" "{z \<in> run6 lo n. z \<le> f} = run6 lo m" "0 < m \<longrightarrow> f < lo + 6 * int m"
      using Suc.IH Suc.prems(1) by force
    then show ?thesis using le_SucI by blast
  next
    case False
    have "{z \<in> run6 lo n. z \<le> f} = run6 lo (Suc t)"
    proof (rule set_eqI)
      fix z
      show "z \<in> {z \<in> run6 lo n. z \<le> f} \<longleftrightarrow> z \<in> run6 lo (Suc t)"
      proof
        assume "z \<in> {z \<in> run6 lo n. z \<le> f}"
        then obtain u where u: "u < n" "z = lo + 6 * int u" "z \<le> f" unfolding run6_def by auto
        have "u < Suc t" using u(2,3) Suc.prems(2) by (cases "u < Suc t") auto
        then show "z \<in> run6 lo (Suc t)" unfolding run6_def using u(2) by blast
      next
        assume "z \<in> run6 lo (Suc t)"
        then obtain u where u: "u < Suc t" "z = lo + 6 * int u" unfolding run6_def by auto
        have "u < n" using u(1) Suc.prems(1) by simp
        moreover have "z \<le> f" using u False by auto
        ultimately show "z \<in> {z \<in> run6 lo n. z \<le> f}" unfolding run6_def using u(2) by blast
      qed
    qed
    then show ?thesis using Suc.prems(2) by blast
  qed
qed

lemma fwd_start:
  assumes d: "distinct zs" and R: "set zs = run6 lo (length zs)" and dv: "6 dvd lo"
    and hi: "\<exists>z\<in>set zs. f < z" and low: "\<forall>z\<in>set zs. b \<le> z" and ex: "lo \<le> s"
  shows "fwdInv s f b 0 zs"
proof -
  obtain z0 where z0: "z0 \<in> set zs" "f < z0" using hi by blast
  then obtain t0 where t0: "t0 < length zs" "z0 = lo + 6 * int t0"
    unfolding R run6_def by auto
  obtain m where m: "{z \<in> run6 lo (length zs). z \<le> f} = run6 lo m" "0 < m \<longrightarrow> f < lo + 6 * int m"
    using run6_below[OF t0(1), of f lo] z0(2) t0(2) by blast
  have n: "0 < length zs" using t0(1) by linarith
  have loin: "lo \<in> set zs" unfolding R using run6_low[OF n] .
  have 1: "\<exists>z\<in>set zs. z \<le> s" using loin ex by blast
  have 2: "\<forall>z\<in>set zs. b \<le> z \<and> 6 dvd z"
    using low dv unfolding R run6_def by auto
  have D: "set zs - pend f 0 zs = run6 lo m"
    unfolding pend_all m(1)[symmetric] R by auto
  have ab: "\<forall>p\<in>pend f 0 zs. \<forall>d\<in>run6 lo m. d < p"
    unfolding pend_all m(1)[symmetric] by auto
  have 3: "\<exists>lo m. set zs - pend f 0 zs = run6 lo m
            \<and> (0 < m \<longrightarrow> f < lo + 6 * int m)
            \<and> (\<forall>p\<in>pend f 0 zs. \<forall>d\<in>run6 lo m. d < p)"
    by (rule exI[of _ lo], rule exI[of _ m]) (use D m(2) ab in simp)
  show ?thesis unfolding fwdInv_def by (rule conjI[OF d conjI[OF 1 conjI[OF 2 3]]])
qed

lemma fwd_end:
  assumes "fwdInv s f b (length zs) zs" "0 < length zs"
  shows "distinct zs \<and> (\<exists>lo. set zs = run6 lo (length zs) \<and> 6 dvd lo \<and> lo \<le> s
            \<and> f < lo + 6 * int (length zs))"
proof -
  have d: "distinct zs" and ex: "\<exists>z\<in>set zs. z \<le> s"
    and bd: "\<forall>z\<in>set zs. b \<le> z \<and> 6 dvd z"
    using assms(1) by (simp_all add: fwdInv_def)
  have "\<exists>lo m. set zs - pend f (length zs) zs = run6 lo m
            \<and> (0 < m \<longrightarrow> f < lo + 6 * int m)
            \<and> (\<forall>p\<in>pend f (length zs) zs. \<forall>d\<in>run6 lo m. d < p)"
    using assms(1) by (simp add: fwdInv_def)
  then obtain lo m where D0: "set zs - pend f (length zs) zs = run6 lo m"
    and nx: "0 < m \<longrightarrow> f < lo + 6 * int m"
    by (elim exE conjE)
  have D: "set zs = run6 lo m" using D0 unfolding pend_none by simp
  have "card (set zs) = m" unfolding D by (rule card_run6)
  then have m: "m = length zs" using d by (simp add: distinct_card)
  have loin: "lo \<in> set zs" unfolding D m using run6_low[OF assms(2)] .
  have "6 dvd lo" using bd loin by blast
  moreover have "lo \<le> s"
  proof -
    obtain z where z: "z \<in> set zs" "z \<le> s" using ex by blast
    then have "lo \<le> z" unfolding D using run6_bounds by blast
    then show ?thesis using z(2) by simp
  qed
  moreover have "f < lo + 6 * int (length zs)" using nx assms(2) m by simp
  ultimately show ?thesis using d D m by blast
qed

text \<open>A whole pass in which some segment lies beyond the forward threshold.\<close>

lemma forward_pass:
  assumes d: "distinct zs" and R: "set zs = run6 lo (length zs)" and dv: "6 dvd lo"
    and hi: "\<exists>z\<in>set zs. f < z" and low: "\<forall>z\<in>set zs. b \<le> z" and ex: "lo \<le> s"
    and par: "b + 6 * int (length zs) \<le> f + 1"
  shows "length (foldl (stepZ s f s' b) zs [0..<length zs]) = length zs
       \<and> distinct (foldl (stepZ s f s' b) zs [0..<length zs])
       \<and> (\<exists>lo'. set (foldl (stepZ s f s' b) zs [0..<length zs]) = run6 lo' (length zs)
              \<and> 6 dvd lo' \<and> lo' \<le> s \<and> f < lo' + 6 * int (length zs))"
proof -
  have n: "0 < length zs" using hi by (cases zs) auto
  note a = fwd_fold[OF fwd_start[OF d R dv hi low ex] _ par, where d="length zs" and s'=s']
  let ?r = "foldl (stepZ s f s' b) zs [0..<length zs]"
  have l: "length ?r = length zs" using a by simp
  have i: "fwdInv s f b (length ?r) ?r" using a by simp
  have n': "0 < length ?r" using n l by simp
  show ?thesis using fwd_end[OF i n'] l by simp
qed

lemma foldl_max_neg: "foldl min (- s) (map uminus zs) = - foldl max (s::int) zs"
proof (induction zs arbitrary: s)
  case Nil
  show ?case by simp
next
  case (Cons z zs)
  have "min (- s) (- z) = - max s z" by (simp add: min_def max_def)
  then show ?case using Cons.IH[of "max s z"] by simp
qed

lemma bwdZ_neg:
  "map uminus (bwdZ s' b k zs) = fwdZ (- s') (- b) k (map uminus zs)" if "k < length zs"
  using that unfolding bwdZ_def fwdZ_def
  by (simp add: foldl_max_neg map_update)

lemma run6_neg: "uminus ` run6 lo n = run6 (- lo - 6 * (int n - 1)) n"
proof (rule set_eqI)
  fix z
  show "z \<in> uminus ` run6 lo n \<longleftrightarrow> z \<in> run6 (- lo - 6 * (int n - 1)) n"
  proof
    assume "z \<in> uminus ` run6 lo n"
    then obtain t where t: "t < n" "z = - (lo + 6 * int t)" unfolding run6_def by auto
    have "n - 1 - t < n" using t(1) by simp
    moreover have "z = - lo - 6 * (int n - 1) + 6 * int (n - 1 - t)"
      using t by (simp add: of_nat_diff algebra_simps)
    ultimately show "z \<in> run6 (- lo - 6 * (int n - 1)) n" unfolding run6_def by blast
  next
    assume "z \<in> run6 (- lo - 6 * (int n - 1)) n"
    then obtain t where t: "t < n" "z = - lo - 6 * (int n - 1) + 6 * int t" unfolding run6_def by auto
    have "n - 1 - t < n" using t(1) by simp
    moreover have "z = - (lo + 6 * int (n - 1 - t))"
      using t by (simp add: of_nat_diff algebra_simps)
    ultimately show "z \<in> uminus ` run6 lo n" unfolding run6_def by blast
  qed
qed

lemma bwd_step:
  assumes inv: "fwdInv (- s') (- b) (- f) k (map uminus zs)" and k: "k < length zs"
    and par: "b + 6 * int (length zs) \<le> f + 1"
  shows "fwdInv (- s') (- b) (- f) (Suc k) (map uminus (stepZ s f s' b zs k))"
    "length (stepZ s f s' b zs k) = length zs"
proof -
  have "- f \<le> - (zs ! k)"
    using inv k unfolding fwdInv_def by (metis length_map nth_map nth_mem)
  then have e: "fwdZ s f k zs = zs" unfolding fwdZ_def by simp
  have s: "map uminus (stepZ s f s' b zs k) = fwdZ (- s') (- b) k (map uminus zs)"
    unfolding stepZ_def e by (rule bwdZ_neg[OF k])
  have k': "k < length (map uminus zs)" using k by simp
  have par': "- f + 6 * int (length (map uminus zs)) \<le> - b + 1" using par by simp
  note st = fwd_step[OF inv k' par', where s'=0]
  show "fwdInv (- s') (- b) (- f) (Suc k) (map uminus (stepZ s f s' b zs k))"
    unfolding s using st(1) unfolding st(2) .
  show "length (stepZ s f s' b zs k) = length zs"
    unfolding stepZ_def e bwdZ_def by simp
qed

lemma bwd_fold:
  "fwdInv (- s') (- b) (- f) k (map uminus zs) \<Longrightarrow> k + d = length zs \<Longrightarrow>
   b + 6 * int (length zs) \<le> f + 1 \<Longrightarrow>
     fwdInv (- s') (- b) (- f) (length zs) (map uminus (foldl (stepZ s f s' b) zs [k..<length zs]))
     \<and> length (foldl (stepZ s f s' b) zs [k..<length zs]) = length zs"
proof (induction d arbitrary: k zs)
  case 0
  then show ?case by simp
next
  case (Suc d)
  have k: "k < length zs" using Suc.prems(2) by simp
  note st = bwd_step[OF Suc.prems(1) k Suc.prems(3), where s=s]
  let ?zs = "stepZ s f s' b zs k"
  have l: "length ?zs = length zs" using st(2) .
  have "fwdInv (- s') (- b) (- f) (length ?zs) (map uminus (foldl (stepZ s f s' b) ?zs [Suc k..<length ?zs]))
     \<and> length (foldl (stepZ s f s' b) ?zs [Suc k..<length ?zs]) = length ?zs"
    using Suc.prems(2,3) by (intro Suc.IH[OF st(1)]) (simp_all add: l)
  then show ?case unfolding l using k by (simp add: upt_conv_Cons)
qed

text \<open>A whole pass in which some segment lies beyond the backward threshold.\<close>

lemma backward_pass:
  assumes d: "distinct zs" and R: "set zs = run6 lo (length zs)" and dv: "6 dvd lo"
    and lw: "\<exists>z\<in>set zs. z < b" and high: "\<forall>z\<in>set zs. z \<le> f"
    and ex: "s' \<le> lo + 6 * (int (length zs) - 1)"
    and par: "b + 6 * int (length zs) \<le> f + 1"
  shows "length (foldl (stepZ s f s' b) zs [0..<length zs]) = length zs
       \<and> distinct (foldl (stepZ s f s' b) zs [0..<length zs])
       \<and> (\<exists>lo'. set (foldl (stepZ s f s' b) zs [0..<length zs]) = run6 lo' (length zs)
              \<and> 6 dvd lo' \<and> s' \<le> lo' + 6 * (int (length zs) - 1) \<and> lo' < b + 6)"
proof -
  let ?n = "length zs"
  let ?zm = "map uminus zs"
  let ?r = "foldl (stepZ s f s' b) zs [0..<length zs]"
  have n: "0 < ?n" using lw by (cases zs) auto
  have d': "distinct ?zm" using d by (simp add: distinct_map)
  have R': "set ?zm = run6 (- lo - 6 * (int ?n - 1)) (length ?zm)"
    using R run6_neg[of lo ?n] by simp
  have dv': "6 dvd (- lo - 6 * (int ?n - 1))" using dv by (simp add: dvd_diff)
  have hi': "\<exists>z\<in>set ?zm. - b < z" using lw by auto
  have low': "\<forall>z\<in>set ?zm. - f \<le> z" using high by auto
  have ex': "- lo - 6 * (int ?n - 1) \<le> - s'" using ex by simp
  note i0 = fwd_start[OF d' R' dv' hi' low' ex']
  note a = bwd_fold[OF i0 _ par, where d="?n" and s=s]
  have l: "length ?r = ?n" using a by simp
  have i: "fwdInv (- s') (- b) (- f) (length (map uminus ?r)) (map uminus ?r)"
    using a by simp
  have n': "0 < length (map uminus ?r)" using n l by simp
  obtain lo1 where e: "distinct (map uminus ?r)" "set (map uminus ?r) = run6 lo1 ?n"
      "6 dvd lo1" "lo1 \<le> - s'" "- b < lo1 + 6 * int ?n"
    using fwd_end[OF i n'] l by auto
  have dr: "distinct ?r" using e(1) by (simp add: distinct_map)
  have "set ?r = uminus ` set (map uminus ?r)" by (simp add: image_image)
  then have sr: "set ?r = run6 (- lo1 - 6 * (int ?n - 1)) ?n"
    unfolding e(2) run6_neg .
  have 1: "6 dvd (- lo1 - 6 * (int ?n - 1))" using e(3) by (simp add: dvd_diff)
  have 2: "s' \<le> (- lo1 - 6 * (int ?n - 1)) + 6 * (int ?n - 1)" using e(4) by simp
  have 3: "(- lo1 - 6 * (int ?n - 1)) < b + 6" using e(5) by simp
  show ?thesis using l dr sr 1 2 3 by blast
qed

lemma idle_pass:
  assumes "\<forall>z\<in>set zs. b \<le> z \<and> z \<le> f"
  shows "list_all (\<lambda>i. i < length zs) xs \<Longrightarrow> foldl (stepZ s f s' b) zs xs = zs"
proof (induction xs)
  case Nil
  show ?case by simp
next
  case (Cons x xs)
  have "b \<le> zs ! x \<and> zs ! x \<le> f" using assms Cons.prems by simp
  then have "stepZ s f s' b zs x = zs" unfolding stepZ_def fwdZ_def bwdZ_def by simp
  then show ?case using Cons by simp
qed

lemma poolOk_contiguous: "poolOk zs \<Longrightarrow> poolContiguous zs"
  unfolding poolOk_def poolContiguous_def run6_def NUM_SEGMENTS_def SEGMENT_DEPTH_def by auto

lemma passZ_ok:
  assumes ok: "poolOk zs" and c: "- 1000002 \<le> c" "c \<le> 90"
  shows "poolOk (passZ c zs)"
proof -
  let ?f = "\<lfloor>c\<rfloor> + 6" and ?b = "\<lceil>c\<rceil> - 90"
  obtain lo where l: "length zs = 14" and d: "distinct zs" and dv: "6 dvd lo"
    and R: "set zs = run6 lo 14" and lo0: "lo \<le> 0" and hi: "- 999999 \<le> lo + 78"
    using ok unfolding poolOk_def by blast
  have cf: "\<lceil>c\<rceil> \<le> \<lfloor>c\<rfloor> + 1" by linarith
  have fc: "- 1000002 \<le> \<lfloor>c\<rfloor>" using c(1) by linarith
  have ce: "\<lceil>c\<rceil> \<le> 90" using c(2) by linarith
  have par: "?b + 6 * int (length zs) \<le> ?f + 1" using cf l by simp
  have R': "set zs = run6 lo (length zs)" using R l by simp
  have span: "\<forall>z\<in>set zs. lo \<le> z \<and> z \<le> lo + 78"
    unfolding R using run6_bounds by force
  let ?r = "foldl (stepZ 0 ?f (- 999999) ?b) zs [0..<length zs]"
  consider (fwd) "\<exists>z\<in>set zs. ?f < z" | (bwd) "\<forall>z\<in>set zs. z \<le> ?f" "\<exists>z\<in>set zs. z < ?b"
    | (idle) "\<forall>z\<in>set zs. ?b \<le> z \<and> z \<le> ?f"
    by (meson not_le)
  then show ?thesis
  proof cases
    case fwd
    then obtain z0 where z0: "z0 \<in> set zs" "?f < z0" by blast
    have "z0 \<le> lo + 78" using span z0(1) by blast
    then have low: "\<forall>z\<in>set zs. ?b \<le> z" using span z0(2) cf by force
    obtain lo' where r: "length ?r = length zs" "distinct ?r" "set ?r = run6 lo' (length zs)"
        "6 dvd lo'" "lo' \<le> 0" "?f < lo' + 6 * int (length zs)"
      using forward_pass[OF d R' dv fwd low lo0 par, where s'="- 999999"] by blast
    have "\<lfloor>c\<rfloor> + 6 < lo' + 84" using r(6) l by simp
    then have "- 1000002 < lo' + 78" using fc by linarith
    then have "- 999999 \<le> lo' + 78" using r(4) by presburger
    then show ?thesis unfolding poolOk_def passZ_def using r l by auto
  next
    case bwd
    have ex: "- 999999 \<le> lo + 6 * (int (length zs) - 1)" using hi l by simp
    obtain lo' where r: "length ?r = length zs" "distinct ?r" "set ?r = run6 lo' (length zs)"
        "6 dvd lo'" "- 999999 \<le> lo' + 6 * (int (length zs) - 1)" "lo' < ?b + 6"
      using backward_pass[OF d R' dv bwd(2) bwd(1) ex par, where s=0] by blast
    have "lo' < 6" using r(6) ce by linarith
    then have "lo' \<le> 0" using r(4) by presburger
    moreover have "- 999999 \<le> lo' + 78" using r(5) l by simp
    ultimately show ?thesis unfolding poolOk_def passZ_def using r l by auto
  next
    case idle
    have "list_all (\<lambda>i. i < length zs) [0..<length zs]" by (simp add: list_all_iff)
    from idle_pass[OF idle this] have "passZ c zs = zs" unfolding passZ_def .
    then show ?thesis using ok by simp
  qed
qed

lemma forwardRecycle_pos:
  assumes "i < length (segmentsRef st)"
  shows "map posz (segmentsRef (forwardRecycle rnd c i st))
           = fwdZ 0 (\<lfloor>c\<rfloor> + 6) i (map posz (segmentsRef st))"
proof -
  have m: "minZ (segmentsRef st) = foldl min 0 (map posz (segmentsRef st))"
    unfolding minZ_def by (simp add: foldl_map)
  have cond: "(real_of_int (posz (segmentsRef st ! i)) > c + real_of_int SEGMENT_DEPTH)
      \<longleftrightarrow> \<lfloor>c\<rfloor> + 6 < posz (segmentsRef st ! i)"
    unfolding SEGMENT_DEPTH_def by linarith
  show ?thesis
  proof (cases "\<lfloor>c\<rfloor> + 6 < posz (segmentsRef st ! i)")
    case False
    then show ?thesis
      using assms cond unfolding forwardRecycle_def Let_def fwdZ_def by simp
  next
    case True
    let ?gz = "(segmentsRef st ! i)\<lparr>posz := minZ (segmentsRef st) - SEGMENT_DEPTH\<rparr>"
    let ?r = "repopulate rnd (?gz, st)"
    have e: "forwardRecycle rnd c i st = (snd ?r)\<lparr>segmentsRef := (segmentsRef (snd ?r))[i := fst ?r]\<rparr>"
      using True cond unfolding forwardRecycle_def Let_def by (simp split: prod.splits)
    have p: "posz (fst ?r) = foldl min 0 (map posz (segmentsRef st)) - 6"
      using repopulate_frame(3)[where rnd=rnd and g="?gz" and st=st] m
      by (simp add: SEGMENT_DEPTH_def)
    show ?thesis
      unfolding e fwdZ_def using True assms p
      by (simp add: repopulate_frame(2) map_update)
  qed
qed

lemma backwardRecycle_pos:
  assumes "i < length (segmentsRef st)"
  shows "map posz (segmentsRef (backwardRecycle rnd c i st))
           = bwdZ (- 999999) (\<lceil>c\<rceil> - 90) i (map posz (segmentsRef st))"
proof -
  have m: "maxZ (segmentsRef st) = foldl max (- 999999) (map posz (segmentsRef st))"
    unfolding maxZ_def by (simp add: foldl_map)
  have cond: "(real_of_int (posz (segmentsRef st ! i))
                 < c - real_of_int (int NUM_SEGMENTS * SEGMENT_DEPTH) - real_of_int SEGMENT_DEPTH)
      \<longleftrightarrow> posz (segmentsRef st ! i) < \<lceil>c\<rceil> - 90"
    unfolding SEGMENT_DEPTH_def NUM_SEGMENTS_def by (simp, linarith)
  show ?thesis
  proof (cases "posz (segmentsRef st ! i) < \<lceil>c\<rceil> - 90")
    case False
    then show ?thesis
      using assms cond unfolding backwardRecycle_def Let_def bwdZ_def by simp
  next
    case True
    let ?gz = "(segmentsRef st ! i)\<lparr>posz := maxZ (segmentsRef st) + SEGMENT_DEPTH\<rparr>"
    let ?r = "repopulate rnd (?gz, st)"
    have e: "backwardRecycle rnd c i st = (snd ?r)\<lparr>segmentsRef := (segmentsRef (snd ?r))[i := fst ?r]\<rparr>"
      using True cond unfolding backwardRecycle_def Let_def by (simp split: prod.splits)
    have p: "posz (fst ?r) = foldl max (- 999999) (map posz (segmentsRef st)) + 6"
      using repopulate_frame(3)[where rnd=rnd and g="?gz" and st=st] m
      by (simp add: SEGMENT_DEPTH_def)
    show ?thesis
      unfolding e bwdZ_def using True assms p
      by (simp add: repopulate_frame(2) map_update)
  qed
qed

lemma recycleSegment_pos:
  assumes "i < length (segmentsRef st)"
  shows "map posz (segmentsRef (recycleSegment rnd c st i))
           = stepZ 0 (\<lfloor>c\<rfloor> + 6) (- 999999) (\<lceil>c\<rceil> - 90) (map posz (segmentsRef st)) i"
proof -
  have l: "i < length (segmentsRef (forwardRecycle rnd c i st))"
    using assms by (simp add: forwardRecycle_length)
  show ?thesis
    unfolding recycleSegment_def stepZ_def
    using backwardRecycle_pos[OF l, where rnd=rnd and c=c] forwardRecycle_pos[OF assms, where rnd=rnd and c=c]
    by simp
qed

lemma fold_recycleSegment_pos:
  "list_all (\<lambda>i. i < length (segmentsRef st)) xs \<Longrightarrow>
   map posz (segmentsRef (foldl (recycleSegment rnd c) st xs))
     = foldl (stepZ 0 (\<lfloor>c\<rfloor> + 6) (- 999999) (\<lceil>c\<rceil> - 90)) (map posz (segmentsRef st)) xs"
proof (induction xs arbitrary: st)
  case Nil
  show ?case by simp
next
  case (Cons x xs)
  have x: "x < length (segmentsRef st)" using Cons.prems by simp
  have l: "length (segmentsRef (recycleSegment rnd c st x)) = length (segmentsRef st)"
    unfolding recycleSegment_def by (simp add: forwardRecycle_length backwardRecycle_length)
  have "list_all (\<lambda>i. i < length (segmentsRef (recycleSegment rnd c st x))) xs"
    using Cons.prems l by simp
  from Cons.IH[OF this] show ?case using recycleSegment_pos[OF x, where rnd=rnd and c=c] by simp
qed

lemma recyclePass_pos:
  "map posz (segmentsRef (recyclePass rnd c st)) = passZ c (map posz (segmentsRef st))"
proof -
  have "list_all (\<lambda>i. i < length (segmentsRef st)) [0..<length (segmentsRef st)]"
    by (simp add: list_all_iff)
  from fold_recycleSegment_pos[OF this, where rnd=rnd and c=c]
  show ?thesis unfolding recyclePass_def passZ_def by simp
qed

section \<open>The pool invariant\<close>

lemma initialPlacement_eq:
  "map (\<lambda>i. - int i * SEGMENT_DEPTH) [0..<NUM_SEGMENTS] = initialPlacement"
  unfolding initialPlacement_def NUM_SEGMENTS_def SEGMENT_DEPTH_def by (simp add: upt_rec)

lemma initialPlacement_ok: "poolOk initialPlacement"
proof -
  have e: "initialPlacement = map (\<lambda>t. - (0 + 6 * int t)) [0..<14]"
    unfolding initialPlacement_def by (simp add: upt_rec)
  have "inj_on (\<lambda>t. - (0 + 6 * int t)) (set [0..<14])" by (rule inj_onI) simp
  then have d: "distinct initialPlacement" unfolding e by (simp add: distinct_map)
  have "set initialPlacement = uminus ` run6 0 14"
    unfolding e run6_def by (simp add: image_image lessThan_atLeast0)
  then have s: "set initialPlacement = run6 (- 78) 14" unfolding run6_neg by simp
  have l: "length initialPlacement = 14" unfolding initialPlacement_def by simp
  have "\<exists>lo. 6 dvd lo \<and> set initialPlacement = run6 lo 14 \<and> lo \<le> 0 \<and> - 999999 \<le> lo + 78"
    by (rule exI[of _ "- 78"]) (simp add: s)
  then show ?thesis unfolding poolOk_def using d l by simp
qed

lemma animate_pos:
  assumes "cameraRef st = Some z" "sceneRef st \<noteq> None" "rendererRef st \<noteq> None"
  shows "map posz (segmentsRef (animate rnd st))
           = passZ (cameraStep (scrollPosRef st) z) (map posz (segmentsRef st))"
  unfolding animate_ready[OF assms] recyclePass_pos by simp

lemma mountEffect_pos:
  "map posz (segmentsRef (mountEffect rnd True unmounted)) = initialPlacement"
proof -
  let ?s1 = "unmounted\<lparr>sceneRef := Some \<lparr>background = None, fog = None\<rparr>,
                          cameraRef := Some 0, rendererRef := Some ()\<rparr>"
  let ?s2 = "generateSegments rnd ?s1"
  have f: "cameraRef ?s2 = Some 0" "sceneRef ?s2 \<noteq> None" "rendererRef ?s2 \<noteq> None" "scrollPosRef ?s2 = 0"
    using sameRefs_fields[OF generateSegments_frame(1)[where st="?s1" and rnd=rnd]]
    by (simp_all add: unmounted_def)
  have p: "map posz (segmentsRef ?s2) = initialPlacement"
    using generateSegments_frame(2)[where st="?s1" and rnd=rnd] initialPlacement_eq by simp
  have idle: "\<forall>z\<in>set initialPlacement. \<lceil>0::real\<rceil> - 90 \<le> z \<and> z \<le> \<lfloor>0::real\<rfloor> + 6"
    unfolding initialPlacement_def by simp
  have "list_all (\<lambda>i. i < length initialPlacement) [0..<length initialPlacement]"
    by (simp add: list_all_iff)
  from idle_pass[OF idle this] have z: "passZ 0 initialPlacement = initialPlacement"
    unfolding passZ_def .
  have "map posz (segmentsRef (animate rnd ?s2)) = initialPlacement"
    unfolding animate_pos[OF f(1,2,3)] f(4) p cameraStep_zero z ..
  then show ?thesis unfolding mountEffect_def Let_def by simp
qed

lemma fold_recyclePass_ok:
  "poolOk (map posz (segmentsRef st)) \<Longrightarrow> \<forall>c\<in>set cs. - 1000002 \<le> c \<and> c \<le> 90 \<Longrightarrow>
   poolOk (map posz (segmentsRef (foldl (\<lambda>st c. recyclePass rnd c st) st cs)))"
proof (induction cs arbitrary: st)
  case Nil
  then show ?case by simp
next
  case (Cons c cs)
  have c: "- 1000002 \<le> c" "c \<le> 90" using Cons.prems(2) by simp_all
  have "poolOk (map posz (segmentsRef (recyclePass rnd c st)))"
    unfolding recyclePass_pos by (rule passZ_ok[OF Cons.prems(1) c])
  from Cons.IH[OF this] show ?case using Cons.prems(2) by simp
qed

text \<open>
  Where the recycling update keeps the pool: the mount places the 14 segments at
  0, -6, ..., -78, and for every sequence of camera depths between -1000002 and 90 the
  pool holds exactly 14 segments whose depth positions are 14 consecutive multiples of
  6. Between these depths the lowest position stays at or below 0 and the highest at
  or above -999999, the two constants the scans for the far ends start from.
\<close>

lemma pool_contiguous_in_range:
  assumes "\<forall>c\<in>set cs. - 1000002 \<le> c \<and> c \<le> 90"
  shows "map posz (segmentsRef (mountEffect rnd True unmounted)) = initialPlacement
       \<and> poolContiguous (map posz (segmentsRef
             (foldl (\<lambda>st c. recyclePass rnd c st) (mountEffect rnd True unmounted) cs)))"
proof -
  have "poolOk (map posz (segmentsRef (mountEffect rnd True unmounted)))"
    unfolding mountEffect_pos by (rule initialPlacement_ok)
  from poolOk_contiguous[OF fold_recyclePass_ok[OF this assms]] mountEffect_pos
  show ?thesis by simp
qed

section \<open>The pool after a deep scroll\<close>


















end
